theory Spec2Isabelle
  imports
    Main
    "HOL-Library.Word"
    "HOL-Library.Char_ord"
    "HOL-Library.List_Lexorder"
    "HOL-Library.Multiset"
begin

unbundle bit_operations_syntax

section \<open>Bytes, strings and streams of the C++ library\<close>

text \<open>
  A \<^verbatim>\<open>std::string\<close> and a \<^verbatim>\<open>std::vector<std::byte>\<close> are both lists of 8-bit
  characters; the source converts between them with \<^verbatim>\<open>static_cast\<close>, which keeps the
  value. Strings are compared as \<^verbatim>\<open>std::string::operator<\<close> does: lexicographically,
  character by character, on the unsigned value (the order of \<open>Char_ord\<close> and
  \<open>List_Lexorder\<close>).
\<close>

type_synonym byte = char

abbreviation NUL :: char where "NUL \<equiv> CHR 0x00"
abbreviation LF :: char where "LF \<equiv> CHR 0x0A"
abbreviation SP :: char where "SP \<equiv> CHR 0x20"

text \<open>\<^verbatim>\<open>isspace\<close>, \<^verbatim>\<open>isdigit\<close> and \<^verbatim>\<open>isxdigit\<close> in the "C" locale.\<close>

definition isspace :: "char \<Rightarrow> bool" where
  "isspace c \<longleftrightarrow> c \<in> {SP, CHR 0x09, LF, CHR 0x0B, CHR 0x0C, CHR 0x0D}"

definition isdigit :: "char \<Rightarrow> bool" where
  "isdigit c \<longleftrightarrow> CHR ''0'' \<le> c \<and> c \<le> CHR ''9''"

definition isxdigit :: "char \<Rightarrow> bool" where
  "isxdigit c \<longleftrightarrow> isdigit c \<or> (CHR ''a'' \<le> c \<and> c \<le> CHR ''f'') \<or> (CHR ''A'' \<le> c \<and> c \<le> CHR ''F'')"

text \<open>\<^verbatim>\<open>s.rfind(prefix, 0) == 0\<close>: the string starts with the prefix.\<close>

definition starts_with :: "string \<Rightarrow> string \<Rightarrow> bool" where
  "starts_with pre s \<longleftrightarrow> take (length pre) s = pre"

text \<open>\<^verbatim>\<open>s.find(sub) != npos\<close>: the substring occurs somewhere in \<open>s\<close>.\<close>

fun contains_sub :: "string \<Rightarrow> string \<Rightarrow> bool" where
  "contains_sub sub [] = (sub = [])"
| "contains_sub sub (c # cs) = (starts_with sub (c # cs) \<or> contains_sub sub cs)"

text \<open>
  \<^verbatim>\<open>std::to_string\<close> of an unsigned value and \<^verbatim>\<open>operator<<\<close> of a signed one:
  decimal digits, most significant first, with a minus sign for a negative value.
\<close>

definition digit_char :: "nat \<Rightarrow> char" where
  "digit_char d = char_of (48 + d)"

fun string_of_nat :: "nat \<Rightarrow> string" where
  "string_of_nat n =
     (if n < 10 then [digit_char n] else string_of_nat (n div 10) @ [digit_char (n mod 10)])"

declare string_of_nat.simps [simp del]

definition string_of_int :: "int \<Rightarrow> string" where
  "string_of_int i = (if i < 0 then CHR ''-'' # string_of_nat (nat (- i)) else string_of_nat (nat i))"

lemma length_tl_dropWhile_le: "length (tl (dropWhile P xs)) \<le> length xs"
  by (induction xs) auto

lemma length_tl_dropWhile_less: "xs \<noteq> [] \<Longrightarrow> length (tl (dropWhile P xs)) < length xs"
proof (cases "dropWhile P xs")
  case Nil
  assume "xs \<noteq> []"
  then show ?thesis unfolding Nil by simp
next
  case (Cons y ys)
  have "length (dropWhile P xs) \<le> length xs" by (rule length_dropWhile_le)
  with Cons show ?thesis by simp
qed

text \<open>
  Formatted input. \<^verbatim>\<open>stream >> std::string\<close> skips white space and takes the
  characters up to the next white space; it fails when there is none to take.
  Each function returns the value read and the rest of the stream, or \<open>None\<close> where
  the stream would be left with \<^verbatim>\<open>failbit\<close> set.
\<close>

definition extract_string :: "string \<Rightarrow> (string \<times> string) option" where
  "extract_string s =
     (let s1 = dropWhile isspace s
      in if s1 = [] then None
         else Some (takeWhile (\<lambda>c. \<not> isspace c) s1, dropWhile (\<lambda>c. \<not> isspace c) s1))"

definition int_of_digits :: "string \<Rightarrow> int" where
  "int_of_digits ds = foldl (\<lambda>a c. 10 * a + (of_char c - 48)) 0 ds"

text \<open>
  Reading an integer, as \<^verbatim>\<open>operator>>\<close> and \<^verbatim>\<open>std::stoll\<close> both do: white space
  is skipped, one sign is accepted, then the decimal digits are taken; no digit is a
  failure. The result is the sign, the magnitude and the rest of the input.
\<close>

definition scan_integer :: "string \<Rightarrow> (bool \<times> int \<times> string) option" where
  "scan_integer s =
     (let s1 = dropWhile isspace s;
          signed = (s1 \<noteq> [] \<and> (hd s1 = CHR ''-'' \<or> hd s1 = CHR ''+''));
          neg = (s1 \<noteq> [] \<and> hd s1 = CHR ''-'');
          s2 = (if signed then tl s1 else s1);
          ds = takeWhile isdigit s2
      in if ds = [] then None else Some (neg, int_of_digits ds, dropWhile isdigit s2))"

text \<open>\<^verbatim>\<open>stream >> long long\<close>: a value outside the 64-bit signed range is a failure.\<close>

definition extract_long_long :: "string \<Rightarrow> (int \<times> string) option" where
  "extract_long_long s =
     (case scan_integer s of
        None \<Rightarrow> None
      | Some (neg, m, rest) \<Rightarrow>
          let v = (if neg then - m else m)
          in if v < - (2 ^ 63) \<or> 2 ^ 63 \<le> v then None else Some (v, rest))"

text \<open>
  \<^verbatim>\<open>stream >> uint64_t\<close>: the magnitude has to fit 64 bits; a minus sign negates
  modulo \<open>2 ^ 64\<close>, as \<^verbatim>\<open>strtoull\<close> does.
\<close>

definition extract_uint64 :: "string \<Rightarrow> (64 word \<times> string) option" where
  "extract_uint64 s =
     (case scan_integer s of
        None \<Rightarrow> None
      | Some (neg, m, rest) \<Rightarrow>
          if 2 ^ 64 \<le> m then None
          else Some ((if neg then - word_of_int m else word_of_int m), rest))"

text \<open>\<^verbatim>\<open>std::stoll\<close> throws where the extraction fails; the exception is \<open>None\<close>.\<close>

definition stoll :: "string \<Rightarrow> int option" where
  "stoll s = map_option fst (extract_long_long s)"

text \<open>
  \<^verbatim>\<open>std::getline(stream, line, delim)\<close> takes the characters up to the delimiter and
  discards the delimiter. It fails only when it extracts nothing at all, that is at
  the end of the input. The result is the line and the rest of the stream.
\<close>

definition getline :: "char \<Rightarrow> string \<Rightarrow> (string \<times> string) option" where
  "getline delim s =
     (if s = [] then None
      else Some (takeWhile (\<lambda>c. c \<noteq> delim) s, tl (dropWhile (\<lambda>c. c \<noteq> delim) s)))"

text \<open>The loop \<^verbatim>\<open>while (std::getline(stream, line))\<close>: all lines of the input.\<close>

function getlines :: "string \<Rightarrow> string list" where
  "getlines s =
     (if s = [] then []
      else takeWhile (\<lambda>c. c \<noteq> LF) s # getlines (tl (dropWhile (\<lambda>c. c \<noteq> LF) s)))"
  by pat_completeness auto
termination
proof (relation "measure length")
  show "wf (measure length)" by simp
next
  fix s :: string
  assume "s \<noteq> []"
  then have "length (tl (dropWhile (\<lambda>c. c \<noteq> LF) s)) < length s"
    by (rule length_tl_dropWhile_less)
  then show "(tl (dropWhile (\<lambda>c. c \<noteq> LF) s), s) \<in> measure length"
    by simp
qed

declare getlines.simps [simp del]

section \<open>Paths\<close>

text \<open>
  A \<^verbatim>\<open>std::filesystem::path\<close> is modelled by the list of its elements, the way
  iterating over the path yields them: the root directory \<^verbatim>\<open>/\<close> first when the path
  is absolute, then the file names, and an empty last element when the path ends in
  a separator. Paths compare element by element (\<^verbatim>\<open>path::compare\<close>), which is the
  lexicographic order on lists of strings; for the relative paths that the index
  holds this is the order of \<^verbatim>\<open>operator<\<close>.
\<close>

type_synonym path = "string list"

text \<open>The pieces of a string between the separators.\<close>

fun split_on :: "char \<Rightarrow> string \<Rightarrow> string list" where
  "split_on d [] = [[]]"
| "split_on d (c # cs) =
     (if c = d then [] # split_on d cs
      else (case split_on d cs of [] \<Rightarrow> [[c]] | w # ws \<Rightarrow> (c # w) # ws))"

text \<open>
  One step of \<^verbatim>\<open>lexically_normal\<close> on the file names of a path, left to right: an
  empty name (a doubled separator) and \<^verbatim>\<open>.\<close> are dropped; \<^verbatim>\<open>..\<close> removes the name
  before it, is dropped directly behind the root directory and is kept otherwise. The
  flag records that the last name was dropped, so that the result ends in a separator.
\<close>

definition normal_step :: "bool \<Rightarrow> string list \<times> bool \<Rightarrow> string \<Rightarrow> string list \<times> bool" where
  "normal_step is_abs st c =
     (let stk = fst st
      in if c = [] \<or> c = ''.'' then (stk, True)
         else if c = ''..'' then
           (if stk \<noteq> [] \<and> last stk \<noteq> ''..'' then (butlast stk, True)
            else if is_abs then (stk, True)
            else (stk @ [''..''], False))
         else (stk @ [c], False))"

text \<open>
  \<^verbatim>\<open>std::filesystem::path(s).lexically_normal()\<close> for a path string with \<^verbatim>\<open>/\<close> as the
  separator. The empty path stays empty; a relative path that normalises to nothing
  is \<^verbatim>\<open>.\<close>.
\<close>

definition lexically_normal :: "string \<Rightarrow> path" where
  "lexically_normal s =
     (if s = [] then []
      else
        let is_abs = (hd s = CHR ''/'');
            st = foldl (normal_step is_abs) ([], False) (split_on (CHR ''/'') s);
            stk = fst st;
            trailing = (snd st \<and> stk \<noteq> [] \<and> last stk \<noteq> ''..'')
        in if is_abs then ''/'' # stk @ (if trailing then [[]] else [])
           else if stk = [] then [''.'']
           else stk @ (if trailing then [[]] else []))"

text \<open>\<^verbatim>\<open>path::generic_string\<close>: the elements joined by the separator.\<close>

fun generic_string :: "path \<Rightarrow> string" where
  "generic_string [] = []"
| "generic_string [e] = e"
| "generic_string (e # es) = (if e = ''/'' then e @ generic_string es else e @ ''/'' @ generic_string es)"

section \<open>Tree objects (object.cpp)\<close>

text \<open>
  A \<^verbatim>\<open>TreeEntry\<close> is the struct \<^verbatim>\<open>{mode, name, sha1_hash_hex}\<close>; a \<^verbatim>\<open>Tree\<close>
  holds the public vector \<^verbatim>\<open>entries\<close>. The field names carry the prefix \<open>entry_\<close>
  because \<^verbatim>\<open>mode\<close> and \<^verbatim>\<open>name\<close> are fields of other structs as well.
\<close>

record TreeEntry =
  entry_mode :: string
  entry_name :: string
  entry_sha1_hash_hex :: string

record Tree =
  entries :: "TreeEntry list"

definition is_directory :: "TreeEntry \<Rightarrow> bool" where
  "is_directory e \<longleftrightarrow> entry_mode e = ''040000''"

text \<open>
  The key of the comparator in \<^verbatim>\<open>Tree::sort_entries\<close>: the name, with a slash appended
  for a directory.
\<close>

definition name_for_sort :: "TreeEntry \<Rightarrow> string" where
  "name_for_sort e = (if is_directory e then entry_name e @ ''/'' else entry_name e)"

text \<open>
  \<^verbatim>\<open>Tree::sort_entries\<close> calls \<^verbatim>\<open>std::sort\<close> with the comparator
  \<^verbatim>\<open>name_a_for_sort < name_b_for_sort\<close>. \<^verbatim>\<open>std::sort\<close> leaves the order of entries
  with equal keys open; \<open>sort_key\<close> is one of the results it may give (the stable one).
\<close>

definition sort_entries :: "Tree \<Rightarrow> Tree" where
  "sort_entries t = t\<lparr>entries := sort_key name_for_sort (entries t)\<rparr>"

text \<open>
  \<^verbatim>\<open>Tree::add_entry\<close>: an entry whose hash is not 40 characters long is refused (the
  tree is returned as it was); otherwise the entry is pushed at the back and the whole
  vector is sorted.
\<close>

definition add_entry :: "Tree \<Rightarrow> TreeEntry \<Rightarrow> Tree" where
  "add_entry t e =
     (if length (entry_sha1_hash_hex e) \<noteq> 40 then t
      else sort_entries (t\<lparr>entries := entries t @ [e]\<rparr>))"

text \<open>\<^verbatim>\<open>TreeEntry::serialize\<close>: \<^verbatim>\<open><mode> <name>\0<hash>\<close>.\<close>

definition TreeEntry_serialize :: "TreeEntry \<Rightarrow> byte list" where
  "TreeEntry_serialize e = entry_mode e @ [SP] @ entry_name e @ [NUL] @ entry_sha1_hash_hex e"

text \<open>
  \<^verbatim>\<open>Tree::serialize\<close>: the entries in the order of the vector, behind the header
  \<^verbatim>\<open>tree <size>\0\<close>.
\<close>

definition Tree_content :: "Tree \<Rightarrow> byte list" where
  "Tree_content t = concat (map TreeEntry_serialize (entries t))"

definition Tree_serialize :: "Tree \<Rightarrow> byte list" where
  "Tree_serialize t =
     ''tree'' @ [SP] @ string_of_nat (length (Tree_content t)) @ [NUL] @ Tree_content t"

text \<open>
  \<^verbatim>\<open>Tree::deserialize\<close> walks the body with \<^verbatim>\<open>current_pos\<close>; the model keeps the
  bytes from \<^verbatim>\<open>current_pos\<close> on. Each round reads the mode up to a space, the
  name up to a NUL byte and 40 bytes of hash, and appends the entry \<^emph>\<open>without sorting\<close>;
  a missing separator or fewer than 40 bytes left give \<^verbatim>\<open>std::nullopt\<close>.
\<close>

function Tree_deserialize_from :: "byte list \<Rightarrow> TreeEntry list \<Rightarrow> TreeEntry list option" where
  "Tree_deserialize_from raw acc =
     (if raw = [] then Some acc
      else
        let mode_str = takeWhile (\<lambda>c. c \<noteq> SP) raw;
            after_mode = dropWhile (\<lambda>c. c \<noteq> SP) raw
        in if after_mode = [] then None
           else
             let name_str = takeWhile (\<lambda>c. c \<noteq> NUL) (tl after_mode);
                 after_name = dropWhile (\<lambda>c. c \<noteq> NUL) (tl after_mode)
             in if after_name = [] then None
                else if length (tl after_name) < 40 then None
                else Tree_deserialize_from (drop 40 (tl after_name))
                       (acc @ [\<lparr>entry_mode = mode_str, entry_name = name_str,
                                 entry_sha1_hash_hex = take 40 (tl after_name)\<rparr>]))"
  by pat_completeness auto
termination
proof (relation "measure (\<lambda>(raw, acc). length raw)")
  show "wf (measure (\<lambda>(raw, acc). length raw))" by simp
next
  fix raw :: "byte list" and acc :: "TreeEntry list"
    and mode_str after_mode name_str after_name
  assume a: "raw \<noteq> []"
    and m: "after_mode = dropWhile (\<lambda>c. c \<noteq> SP) raw"
    and n: "after_name = dropWhile (\<lambda>c. c \<noteq> NUL) (tl after_mode)"
    and l: "\<not> length (tl after_name) < 40"
  have "length (tl after_name) \<le> length (tl after_mode)"
    unfolding n by (rule length_tl_dropWhile_le)
  moreover have "length (tl after_mode) < length raw"
    unfolding m using a by (rule length_tl_dropWhile_less)
  ultimately show "((drop 40 (tl after_name),
       acc @ [\<lparr>entry_mode = mode_str, entry_name = name_str,
                entry_sha1_hash_hex = take 40 (tl after_name)\<rparr>]), raw, acc)
     \<in> measure (\<lambda>(raw, acc). length raw)"
    using l by simp
qed

declare Tree_deserialize_from.simps [simp del]

definition Tree_deserialize :: "byte list \<Rightarrow> Tree option" where
  "Tree_deserialize raw = map_option (\<lambda>es. \<lparr>entries = es\<rparr>) (Tree_deserialize_from raw [])"

section \<open>The index (Index.h, Index.cpp)\<close>

text \<open>
  \<^verbatim>\<open>IndexEntry\<close>: the modification time is counted in ticks of the system clock
  since the epoch (nanoseconds), the size is a \<^verbatim>\<open>uint64_t\<close>. \<^verbatim>\<open>operator<\<close> compares
  the paths only.
\<close>

record IndexEntry =
  index_mode :: string
  blob_hash_hex :: string
  mtime :: int
  file_size :: "64 word"
  file_path :: path

text \<open>
  \<^verbatim>\<open>IndexEntry::parse_from_line\<close>. The five formatted reads are chained, so the first
  failure leaves the stream failed for the rest; one space before the path is skipped
  and the path is the rest of the line. A failed read, an empty path or a hash that is
  not 40 characters long give \<^verbatim>\<open>std::nullopt\<close>. The time is
  \<^verbatim>\<open>seconds(mtime_sec_ll) + nanoseconds(mtime_nsec_ll)\<close>, computed in the 64-bit
  count of nanoseconds: the product and the sum wrap around at \<open>2 ^ 64\<close> and the result
  is read as a signed number.
\<close>

definition parse_from_line :: "string \<Rightarrow> IndexEntry option" where
  "parse_from_line line =
     (case extract_string line of None \<Rightarrow> None | Some (mode_str, r1) \<Rightarrow>
      case extract_string r1 of None \<Rightarrow> None | Some (hash_str, r2) \<Rightarrow>
      case extract_long_long r2 of None \<Rightarrow> None | Some (mtime_sec_ll, r3) \<Rightarrow>
      case extract_long_long r3 of None \<Rightarrow> None | Some (mtime_nsec_ll, r4) \<Rightarrow>
      case extract_uint64 r4 of None \<Rightarrow> None | Some (size_ull, r5) \<Rightarrow>
        (case getline LF (if r5 \<noteq> [] \<and> hd r5 = SP then tl r5 else r5) of
           None \<Rightarrow> None
         | Some (path_str, r6) \<Rightarrow>
             if path_str = [] then None
             else if length hash_str \<noteq> 40 then None
             else Some \<lparr>index_mode = mode_str, blob_hash_hex = hash_str,
                        mtime = sint ((word_of_int mtime_sec_ll * 1000000000
                                         + word_of_int mtime_nsec_ll) :: 64 word),
                        file_size = size_ull,
                        file_path = lexically_normal path_str\<rparr>))"

text \<open>
  The \<^verbatim>\<open>Index\<close> object: the members \<^verbatim>\<open>entries_\<close> and \<^verbatim>\<open>loaded_\<close> (a name cannot
  end in an underscore here, so they are \<open>index_entries\<close> and \<open>index_loaded\<close>). The path
  of the index file is fixed by the repository; the operations below take what the
  file system holds at that path.
\<close>

record Index =
  index_entries :: "IndexEntry list"
  index_loaded :: bool

text \<open>What the file system holds at a path: a regular file with its bytes, or a directory.\<close>

datatype fs_node = File string | Dir

text \<open>
  The loop of \<^verbatim>\<open>Index::load\<close> over the lines of the file: a line of white space only is
  skipped, a line that parses is pushed at the back, and the first line that does
  not parse ends the loop with a failure.
\<close>

definition blank_line :: "string \<Rightarrow> bool" where
  "blank_line line \<longleftrightarrow> list_all isspace line"

fun load_lines :: "string list \<Rightarrow> IndexEntry list \<Rightarrow> IndexEntry list option" where
  "load_lines [] acc = Some acc"
| "load_lines (line # rest) acc =
     (if blank_line line then load_lines rest acc
      else (case parse_from_line line of
              Some entry \<Rightarrow> load_lines rest (acc @ [entry])
            | None \<Rightarrow> None))"

text \<open>\<^verbatim>\<open>Index::sort_entries_\<close>: \<^verbatim>\<open>std::sort\<close> by path.\<close>

definition Index_sort_entries :: "IndexEntry list \<Rightarrow> IndexEntry list" where
  "Index_sort_entries es = sort_key file_path es"

text \<open>
  \<^verbatim>\<open>Index::load\<close>. The entries are cleared first. A missing file is an empty index,
  loaded. A directory at the path cannot be read: the load fails with nothing in
  memory. Otherwise the lines are parsed; a failure clears the entries again.
  The result is the return value and the index object afterwards.
\<close>

definition Index_load :: "fs_node option \<Rightarrow> Index \<Rightarrow> bool \<times> Index" where
  "Index_load node idx =
     (case node of
        None \<Rightarrow> (True, \<lparr>index_entries = [], index_loaded = True\<rparr>)
      | Some Dir \<Rightarrow> (False, \<lparr>index_entries = [], index_loaded = False\<rparr>)
      | Some (File file_bytes) \<Rightarrow>
          (case load_lines (getlines file_bytes) [] of
             None \<Rightarrow> (False, \<lparr>index_entries = [], index_loaded = False\<rparr>)
           | Some es \<Rightarrow> (True, \<lparr>index_entries = Index_sort_entries es, index_loaded = True\<rparr>)))"

section \<open>Commits and the commit graph (object.h, Repository.cpp)\<close>

text \<open>
  \<^verbatim>\<open>PersonTimestamp\<close> and \<^verbatim>\<open>Commit\<close>. The time point is counted in ticks of the
  system clock since the epoch. The fields \<^verbatim>\<open>name\<close> and \<^verbatim>\<open>email\<close> carry the prefix
  \<open>person_\<close>.
\<close>

record PersonTimestamp =
  person_name :: string
  person_email :: string
  timestamp :: int
  timezone_offset :: string

record Commit =
  tree_hash_hex :: string
  parent_hashes_hex :: "string list"
  author :: PersonTimestamp
  committer :: PersonTimestamp
  message :: string

text \<open>
  \<^verbatim>\<open>std::chrono::system_clock\<close> counts nanoseconds. \<^verbatim>\<open>to_time_t\<close> converts to
  whole seconds with \<^verbatim>\<open>duration_cast\<close>, which truncates towards zero;
  \<^verbatim>\<open>from_time_t\<close> converts back.
\<close>

definition ticks_per_second :: int where
  "ticks_per_second = 1000000000"

definition to_time_t :: "int \<Rightarrow> int" where
  "to_time_t ticks =
     (if 0 \<le> ticks then ticks div ticks_per_second else - ((- ticks) div ticks_per_second))"

definition from_time_t :: "int \<Rightarrow> int" where
  "from_time_t seconds = seconds * ticks_per_second"

text \<open>\<^verbatim>\<open>PersonTimestamp::format_for_commit\<close>: \<^verbatim>\<open>name <email> seconds timezone\<close>.\<close>

definition format_for_commit :: "PersonTimestamp \<Rightarrow> string" where
  "format_for_commit p =
     person_name p @ '' <'' @ person_email p @ ''> ''
       @ string_of_int (to_time_t (timestamp p)) @ '' '' @ timezone_offset p"

text \<open>\<^verbatim>\<open>s.find(c)\<close>: the position of the first occurrence, \<open>None\<close> for \<^verbatim>\<open>npos\<close>.\<close>

definition find_char :: "char \<Rightarrow> string \<Rightarrow> nat option" where
  "find_char c s = (if c \<in> set s then Some (length (takeWhile (\<lambda>x. x \<noteq> c) s)) else None)"

text \<open>
  \<^verbatim>\<open>PersonTimestamp::parse_from_line_content\<close>. The name is what stands before the
  first \<^verbatim>\<open><\<close>, without one trailing space, and must not be empty; the email is what
  stands between the first \<^verbatim>\<open><\<close> and the first \<^verbatim>\<open>>\<close> of the line; then the seconds
  and the time zone are read from the rest.
\<close>

definition parse_from_line_content :: "string \<Rightarrow> PersonTimestamp option" where
  "parse_from_line_content line_content =
     (case find_char (CHR ''<'') line_content of None \<Rightarrow> None | Some email_start_pos \<Rightarrow>
      case find_char (CHR ''>'') line_content of None \<Rightarrow> None | Some email_end_pos \<Rightarrow>
        if email_start_pos > email_end_pos then None
        else
          let name0 = take email_start_pos line_content;
              name1 = (if name0 \<noteq> [] \<and> last name0 = SP then butlast name0 else name0)
          in if name1 = [] then None
             else
               (case extract_long_long (drop (email_end_pos + 1) line_content) of
                  None \<Rightarrow> None
                | Some (ts_seconds, r1) \<Rightarrow>
                    (case extract_string r1 of
                       None \<Rightarrow> None
                     | Some (tz, r2) \<Rightarrow>
                         if tz = [] then None
                         else Some \<lparr>person_name = name1,
                                    person_email = take (email_end_pos - email_start_pos - 1)
                                                     (drop (email_start_pos + 1) line_content),
                                    timestamp = from_time_t ts_seconds,
                                    timezone_offset = tz\<rparr>)))"

text \<open>
  \<^verbatim>\<open>Commit::serialize\<close>: the body is the tree line, one line for each parent, the
  author and committer lines, an empty line and the message as it is; the header
  \<^verbatim>\<open>commit <size>\0\<close> comes before it.
\<close>

definition Commit_content :: "Commit \<Rightarrow> string" where
  "Commit_content c =
     ''tree '' @ tree_hash_hex c @ [LF]
     @ concat (map (\<lambda>parent_hex. ''parent '' @ parent_hex @ [LF]) (parent_hashes_hex c))
     @ ''author '' @ format_for_commit (author c) @ [LF]
     @ ''committer '' @ format_for_commit (committer c) @ [LF]
     @ [LF]
     @ message c"

definition Commit_serialize :: "Commit \<Rightarrow> byte list" where
  "Commit_serialize c =
     ''commit'' @ [SP] @ string_of_nat (length (Commit_content c)) @ [NUL] @ Commit_content c"

text \<open>The default-constructed \<^verbatim>\<open>PersonTimestamp\<close> and \<^verbatim>\<open>Commit\<close>.\<close>

definition default_person :: PersonTimestamp where
  "default_person = \<lparr>person_name = [], person_email = [], timestamp = 0, timezone_offset = []\<rparr>"

definition default_commit :: Commit where
  "default_commit = \<lparr>tree_hash_hex = [], parent_hashes_hex = [], author = default_person,
                      committer = default_person, message = []\<rparr>"

text \<open>
  The line loop of \<^verbatim>\<open>Commit::deserialize\<close>, with the flag \<^verbatim>\<open>in_metadata_section\<close>,
  the commit under construction and \<^verbatim>\<open>message_lines\<close>. \<open>None\<close> is an early
  \<^verbatim>\<open>return std::nullopt\<close>. A line with an unknown key is skipped with a warning.
\<close>

fun deserialize_lines ::
  "string list \<Rightarrow> bool \<Rightarrow> Commit \<Rightarrow> string list \<Rightarrow> (Commit \<times> string list) option" where
  "deserialize_lines [] in_metadata_section commit message_lines = Some (commit, message_lines)"
| "deserialize_lines (line # rest) in_metadata_section commit message_lines =
     (if in_metadata_section then
        if line = [] then deserialize_lines rest False commit message_lines
        else
          (case find_char SP line of
             None \<Rightarrow> None
           | Some first_space \<Rightarrow>
               let key = take first_space line; val = drop (first_space + 1) line
               in if key = ''tree'' then
                    (if tree_hash_hex commit \<noteq> [] then None
                     else if length val \<noteq> 40 then None
                     else deserialize_lines rest True (commit\<lparr>tree_hash_hex := val\<rparr>) message_lines)
                  else if key = ''parent'' then
                    (if length val \<noteq> 40 then None
                     else deserialize_lines rest True
                            (commit\<lparr>parent_hashes_hex := parent_hashes_hex commit @ [val]\<rparr>)
                            message_lines)
                  else if key = ''author'' then
                    (case parse_from_line_content val of
                       None \<Rightarrow> None
                     | Some p \<Rightarrow> deserialize_lines rest True (commit\<lparr>author := p\<rparr>) message_lines)
                  else if key = ''committer'' then
                    (case parse_from_line_content val of
                       None \<Rightarrow> None
                     | Some p \<Rightarrow> deserialize_lines rest True (commit\<lparr>committer := p\<rparr>) message_lines)
                  else deserialize_lines rest True commit message_lines)
      else deserialize_lines rest False commit (message_lines @ [line]))"

text \<open>The message lines are put together again with one line feed between two lines.\<close>

fun join_lines :: "string list \<Rightarrow> string" where
  "join_lines [] = []"
| "join_lines [l] = l"
| "join_lines (l # ls) = l @ [LF] @ join_lines ls"

text \<open>\<^verbatim>\<open>Commit::deserialize\<close>: the loop, the message, and the checks at the end.\<close>

definition Commit_deserialize :: "byte list \<Rightarrow> Commit option" where
  "Commit_deserialize raw_content_data =
     (case deserialize_lines (getlines raw_content_data) True default_commit [] of
        None \<Rightarrow> None
      | Some (commit, message_lines) \<Rightarrow>
          let commit' = (if message_lines \<noteq> [] then commit\<lparr>message := join_lines message_lines\<rparr>
                         else commit)
          in if tree_hash_hex commit' = [] then None
             else if person_name (author commit') = [] \<or> person_name (committer commit') = []
               then None
             else Some commit')"

text \<open>\<^verbatim>\<open>Blob\<close>: the bytes of a file; \<^verbatim>\<open>Blob::deserialize\<close> takes the body as it is.\<close>

record Blob =
  content :: "byte list"

definition Blob_serialize :: "Blob \<Rightarrow> byte list" where
  "Blob_serialize b = ''blob'' @ [SP] @ string_of_nat (length (content b)) @ [NUL] @ content b"

definition Blob_deserialize :: "byte list \<Rightarrow> Blob option" where
  "Blob_deserialize raw_content_data = Some \<lparr>content = raw_content_data\<rparr>"

text \<open>
  \<^verbatim>\<open>read_and_parse_object_file\<close> on the bytes of an object file that could be opened:
  the type up to the first space, the size up to the NUL byte (both not empty), the
  size converted with \<^verbatim>\<open>std::stoll\<close> and not negative, and then exactly that many
  bytes of content. The result is the type, the size and the content.
\<close>

definition read_and_parse_object_file :: "byte list \<Rightarrow> (string \<times> nat \<times> byte list) option" where
  "read_and_parse_object_file bytes =
     (let type_str_read = takeWhile (\<lambda>c. c \<noteq> SP) bytes;
          after_type = dropWhile (\<lambda>c. c \<noteq> SP) bytes
      in if type_str_read = [] \<or> after_type = [] then None
         else
           let size_str_read = takeWhile (\<lambda>c. c \<noteq> NUL) (tl after_type);
               after_size = dropWhile (\<lambda>c. c \<noteq> NUL) (tl after_type)
           in if size_str_read = [] \<or> after_size = [] then None
              else
                (case stoll size_str_read of
                   None \<Rightarrow> None
                 | Some content_size_read \<Rightarrow>
                     if content_size_read < 0 then None
                     else if length (tl after_size) < nat content_size_read then None
                     else Some (type_str_read, nat content_size_read,
                                take (nat content_size_read) (tl after_size))))"

text \<open>The body of a serialized object: what is left when the header is taken off.\<close>

definition object_body :: "byte list \<Rightarrow> byte list option" where
  "object_body bytes = map_option (\<lambda>(type_str, n, data). data) (read_and_parse_object_file bytes)"

text \<open>
  The objects that the serialized form can hold. A tree entry: no space in the mode,
  no NUL byte in the name, a hash of 40 characters. A person (\<open>person_ok\<close>): a name
  that is not empty and has no \<^verbatim>\<open><\<close>, \<^verbatim>\<open>>\<close> or line feed, an email without \<^verbatim>\<open>>\<close> or
  line feed, a time zone that is not empty and has no white space, and a time in the
  range of the 64-bit clock. A commit (\<open>commit_ok\<close>): hashes of 40 characters without
  line feed, such persons, and a message that does not end in a line feed.
  \<open>wf_person\<close> and \<open>wf_commit\<close> ask for times of whole seconds in addition.
  \<open>whole_seconds\<close> is the person with the time cut to whole seconds, as the author
  line holds it, and \<open>with_whole_seconds\<close> the commit with both its times cut so.
\<close>

definition wf_entry :: "TreeEntry \<Rightarrow> bool" where
  "wf_entry e \<longleftrightarrow> SP \<notin> set (entry_mode e) \<and> NUL \<notin> set (entry_name e)
                 \<and> length (entry_sha1_hash_hex e) = 40"

definition wf_person :: "PersonTimestamp \<Rightarrow> bool" where
  "wf_person p \<longleftrightarrow>
     person_name p \<noteq> [] \<and> CHR ''<'' \<notin> set (person_name p) \<and> CHR ''>'' \<notin> set (person_name p)
     \<and> LF \<notin> set (person_name p)
     \<and> CHR ''>'' \<notin> set (person_email p) \<and> LF \<notin> set (person_email p)
     \<and> timezone_offset p \<noteq> [] \<and> \<not> list_ex isspace (timezone_offset p)
     \<and> timestamp p mod ticks_per_second = 0
     \<and> - (2 ^ 63) \<le> timestamp p \<and> timestamp p < 2 ^ 63"

definition wf_hash :: "string \<Rightarrow> bool" where
  "wf_hash h \<longleftrightarrow> length h = 40 \<and> LF \<notin> set h"

definition wf_commit :: "Commit \<Rightarrow> bool" where
  "wf_commit c \<longleftrightarrow>
     wf_hash (tree_hash_hex c) \<and> list_all wf_hash (parent_hashes_hex c)
     \<and> wf_person (author c) \<and> wf_person (committer c)
     \<and> (message c = [] \<or> last (message c) \<noteq> LF)"

definition person_ok :: "PersonTimestamp \<Rightarrow> bool" where
  "person_ok p \<longleftrightarrow>
     person_name p \<noteq> [] \<and> CHR ''<'' \<notin> set (person_name p) \<and> CHR ''>'' \<notin> set (person_name p)
     \<and> LF \<notin> set (person_name p)
     \<and> CHR ''>'' \<notin> set (person_email p) \<and> LF \<notin> set (person_email p)
     \<and> timezone_offset p \<noteq> [] \<and> \<not> list_ex isspace (timezone_offset p)
     \<and> - (2 ^ 63) \<le> timestamp p \<and> timestamp p < 2 ^ 63"

definition commit_ok :: "Commit \<Rightarrow> bool" where
  "commit_ok c \<longleftrightarrow>
     wf_hash (tree_hash_hex c) \<and> list_all wf_hash (parent_hashes_hex c)
     \<and> person_ok (author c) \<and> person_ok (committer c)
     \<and> (message c = [] \<or> last (message c) \<noteq> LF)"

definition whole_seconds :: "PersonTimestamp \<Rightarrow> PersonTimestamp" where
  "whole_seconds p = p\<lparr>timestamp := from_time_t (to_time_t (timestamp p))\<rparr>"

definition with_whole_seconds :: "Commit \<Rightarrow> Commit" where
  "with_whole_seconds c = c\<lparr>author := whole_seconds (author c), committer := whole_seconds (committer c)\<rparr>"

text \<open>
  \<^verbatim>\<open>Commit::load_by_hash\<close> refuses a hash that is not 40 characters long, reads the
  object file of that name, checks its header, its type and its hash, and
  deserializes the body. The object directory is represented by what comes out of
  that: the list of the hashes that load as a commit, each with its commit. A
  directory holds finitely many files, hence a list.
\<close>

type_synonym commit_store = "(string \<times> Commit) list"

definition Commit_load_by_hash :: "commit_store \<Rightarrow> string \<Rightarrow> Commit option" where
  "Commit_load_by_hash objs hash_hex =
     (if length hash_hex \<noteq> 40 then None else map_of objs hash_hex)"

text \<open>
  The loop of \<^verbatim>\<open>Repository::is_fast_forward\<close>, with its variables
  \<^verbatim>\<open>current_hash\<close>, \<^verbatim>\<open>visited_commits\<close> and \<^verbatim>\<open>depth\<close>. Each round compares the
  current commit with the old one, stops on a commit seen before, loads the commit,
  looks for the old commit among \<^emph>\<open>all\<close> its parents, and goes on to the first
  parent. \<^verbatim>\<open>MAX_FF_DEPTH\<close> is 1000.
\<close>

function is_fast_forward_loop ::
  "commit_store \<Rightarrow> string \<Rightarrow> string \<Rightarrow> string set \<Rightarrow> nat \<Rightarrow> bool" where
  "is_fast_forward_loop objs old_commit_hash current_hash visited_commits depth =
     (if current_hash \<noteq> [] \<and> depth < 1000 then
        if current_hash = old_commit_hash then True
        else if current_hash \<in> visited_commits then False
        else (case Commit_load_by_hash objs current_hash of
                None \<Rightarrow> False
              | Some c \<Rightarrow>
                  if parent_hashes_hex c = [] then False
                  else if old_commit_hash \<in> set (parent_hashes_hex c) then True
                  else is_fast_forward_loop objs old_commit_hash (hd (parent_hashes_hex c))
                         (insert current_hash visited_commits) (depth + 1))
      else False)"
  by pat_completeness auto
termination
  by (relation "measure (\<lambda>(objs, old_commit_hash, current_hash, visited_commits, depth). 1000 - depth)")
     auto

declare is_fast_forward_loop.simps [simp del]

definition is_fast_forward :: "commit_store \<Rightarrow> string \<Rightarrow> string \<Rightarrow> bool" where
  "is_fast_forward objs old_commit_hash new_commit_hash =
     (if old_commit_hash = [] then True
      else if old_commit_hash = new_commit_hash then True
      else is_fast_forward_loop objs old_commit_hash new_commit_hash {} 0)"

text \<open>
  The first-parent walk in the words of the specification: the first parent of a
  commit that loads and has parents, the commit \<open>n\<close> steps along the walk, and
  whether the walk from one commit reaches another within \<open>k\<close> steps.
\<close>

definition first_parent :: "commit_store \<Rightarrow> string \<Rightarrow> string option" where
  "first_parent objs h =
     (case Commit_load_by_hash objs h of
        None \<Rightarrow> None
      | Some c \<Rightarrow> (case parent_hashes_hex c of [] \<Rightarrow> None | p # ps \<Rightarrow> Some p))"

fun first_parent_walk :: "commit_store \<Rightarrow> nat \<Rightarrow> string \<Rightarrow> string option" where
  "first_parent_walk objs 0 h = Some h"
| "first_parent_walk objs (Suc n) h =
     (case first_parent objs h of None \<Rightarrow> None | Some p \<Rightarrow> first_parent_walk objs n p)"

fun reaches_within :: "commit_store \<Rightarrow> nat \<Rightarrow> string \<Rightarrow> string \<Rightarrow> bool" where
  "reaches_within objs 0 h target = (h = target)"
| "reaches_within objs (Suc k) h target =
     (h = target \<or>
      (case first_parent objs h of None \<Rightarrow> False | Some p \<Rightarrow> reaches_within objs k p target))"

text \<open>
  The two breadth-first searches of \<^verbatim>\<open>Repository::_find_common_ancestor\<close> push the
  parents of a loaded commit that are not yet in the visited set, in the order of the
  parent list.
\<close>

fun enqueue_parents :: "string list \<Rightarrow> string set \<times> string list \<Rightarrow> string set \<times> string list" where
  "enqueue_parents [] vq = vq"
| "enqueue_parents (parent_hash # ps) (visited, q) =
     (if parent_hash \<in> visited then enqueue_parents ps (visited, q)
      else enqueue_parents ps (insert parent_hash visited, q @ [parent_hash]))"

text \<open>Every hash that some stored commit names as a parent.\<close>

definition all_parents :: "commit_store \<Rightarrow> string set" where
  "all_parents objs = (\<Union>(h, c) \<in> set objs. set (parent_hashes_hex c))"

lemma finite_all_parents: "finite (all_parents objs)"
  by (auto simp: all_parents_def)

lemma load_parents_subset:
  "Commit_load_by_hash objs h = Some c \<Longrightarrow> set (parent_hashes_hex c) \<subseteq> all_parents objs"
  by (auto simp: Commit_load_by_hash_def all_parents_def split: if_splits dest!: map_of_SomeD)

lemma fst_enqueue_parents: "fst (enqueue_parents ps (v, q)) = v \<union> set ps"
  by (induction ps arbitrary: v q) auto

lemma enqueue_parents_same:
  "fst (enqueue_parents ps (v, q)) = v \<Longrightarrow> snd (enqueue_parents ps (v, q)) = q"
proof (induction ps arbitrary: v q)
  case Nil
  then show ?case by simp
next
  case (Cons p ps)
  show ?case
  proof (cases "p \<in> v")
    case True
    with Cons show ?thesis by simp
  next
    case False
    have "p \<in> fst (enqueue_parents (p # ps) (v, q))"
      by (simp only: fst_enqueue_parents) simp
    with Cons.prems False show ?thesis by simp
  qed
qed

lemma enqueue_parents_decreases:
  assumes "set ps \<subseteq> U" and "finite U" and "enqueue_parents ps (v, rest) = (v', q')"
  shows "((v', q'), (v, c # rest))
           \<in> measures [\<lambda>(v, q). card (U - v), \<lambda>(v, q). length q]"
proof (cases "v' = v")
  case True
  with assms(3) have "q' = rest"
    using enqueue_parents_same [of ps v rest] by simp
  with True show ?thesis by simp
next
  case False
  have v': "v' = v \<union> set ps"
    using assms(3) fst_enqueue_parents [of ps v rest] by simp
  with False obtain p where p: "p \<in> set ps" "p \<notin> v" by auto
  with assms(1) have "p \<in> U - v" by auto
  moreover have "p \<notin> U - v'" using p v' by simp
  moreover have "U - v' \<subseteq> U - v" using v' by auto
  ultimately have "U - v' \<subset> U - v" by auto
  with assms(2) have "card (U - v') < card (U - v)"
    by (simp add: psubset_card_mono)
  then show ?thesis by simp
qed

text \<open>
  The first search: every commit taken from the queue \<^verbatim>\<open>q1\<close> goes into
  \<^verbatim>\<open>ancestors1\<close>; the search ends when the queue is empty.
\<close>

function collect_ancestors ::
  "commit_store \<Rightarrow> string list \<Rightarrow> string set \<Rightarrow> string set \<Rightarrow> string set" where
  "collect_ancestors objs [] visited1_bfs ancestors1 = ancestors1"
| "collect_ancestors objs (current_c1 # rest) visited1_bfs ancestors1 =
     (case Commit_load_by_hash objs current_c1 of
        None \<Rightarrow> collect_ancestors objs rest visited1_bfs (insert current_c1 ancestors1)
      | Some c \<Rightarrow>
          (case enqueue_parents (parent_hashes_hex c) (visited1_bfs, rest) of
             (visited', q') \<Rightarrow> collect_ancestors objs q' visited' (insert current_c1 ancestors1)))"
  by pat_completeness auto
termination
proof (relation "inv_image (measures [\<lambda>(objs, v, q). card (all_parents objs - v), \<lambda>(objs, v, q). length q])
                   (\<lambda>(objs, q, v, a). (objs, v, q))")
  show "wf (inv_image (measures [\<lambda>(objs, v, q). card (all_parents objs - v), \<lambda>(objs, v, q). length q])
                   (\<lambda>(objs, q, v, a). (objs, v, q)))"
    by simp
next
  fix objs :: commit_store and current_c1 rest visited1_bfs and ancestors1 :: "string set"
  assume "Commit_load_by_hash objs current_c1 = None"
  then show "((objs, rest, visited1_bfs, insert current_c1 ancestors1),
              objs, current_c1 # rest, visited1_bfs, ancestors1)
             \<in> inv_image (measures [\<lambda>(objs, v, q). card (all_parents objs - v), \<lambda>(objs, v, q). length q])
                   (\<lambda>(objs, q, v, a). (objs, v, q))"
    by simp
next
  fix objs :: commit_store and current_c1 rest visited1_bfs and ancestors1 :: "string set"
    and c visited' q'
  assume l: "Commit_load_by_hash objs current_c1 = Some c"
    and e: "(visited', q') = enqueue_parents (parent_hashes_hex c) (visited1_bfs, rest)"
  from e have "enqueue_parents (parent_hashes_hex c) (visited1_bfs, rest) = (visited', q')" by simp
  from enqueue_parents_decreases [OF load_parents_subset [OF l] finite_all_parents this, of current_c1]
  show "((objs, q', visited', insert current_c1 ancestors1),
              objs, current_c1 # rest, visited1_bfs, ancestors1)
             \<in> inv_image (measures [\<lambda>(objs, v, q). card (all_parents objs - v), \<lambda>(objs, v, q). length q])
                   (\<lambda>(objs, q, v, a). (objs, v, q))"
    by auto
qed

text \<open>
  The second search: the first commit taken from the queue \<^verbatim>\<open>q2\<close> that is in
  \<^verbatim>\<open>ancestors1\<close> is the result; an empty queue gives \<^verbatim>\<open>std::nullopt\<close>.
\<close>

function first_common ::
  "commit_store \<Rightarrow> string set \<Rightarrow> string list \<Rightarrow> string set \<Rightarrow> string option" where
  "first_common objs ancestors1 [] visited2_bfs = None"
| "first_common objs ancestors1 (current_c2 # rest) visited2_bfs =
     (if current_c2 \<in> ancestors1 then Some current_c2
      else (case Commit_load_by_hash objs current_c2 of
              None \<Rightarrow> first_common objs ancestors1 rest visited2_bfs
            | Some c \<Rightarrow>
                (case enqueue_parents (parent_hashes_hex c) (visited2_bfs, rest) of
                   (visited', q') \<Rightarrow> first_common objs ancestors1 q' visited')))"
  by pat_completeness auto
termination
proof (relation "inv_image (measures [\<lambda>(objs, v, q). card (all_parents objs - v), \<lambda>(objs, v, q). length q])
                   (\<lambda>(objs, a, q, v). (objs, v, q))")
  show "wf (inv_image (measures [\<lambda>(objs, v, q). card (all_parents objs - v), \<lambda>(objs, v, q). length q])
                   (\<lambda>(objs, a, q, v). (objs, v, q)))"
    by simp
next
  fix objs :: commit_store and ancestors1 :: "string set" and current_c2 rest visited2_bfs
  assume "Commit_load_by_hash objs current_c2 = None"
  then show "((objs, ancestors1, rest, visited2_bfs), objs, ancestors1, current_c2 # rest, visited2_bfs)
             \<in> inv_image (measures [\<lambda>(objs, v, q). card (all_parents objs - v), \<lambda>(objs, v, q). length q])
                   (\<lambda>(objs, a, q, v). (objs, v, q))"
    by simp
next
  fix objs :: commit_store and ancestors1 :: "string set" and current_c2 rest visited2_bfs
    and c visited' q'
  assume l: "Commit_load_by_hash objs current_c2 = Some c"
    and e: "(visited', q') = enqueue_parents (parent_hashes_hex c) (visited2_bfs, rest)"
  from e have "enqueue_parents (parent_hashes_hex c) (visited2_bfs, rest) = (visited', q')" by simp
  from enqueue_parents_decreases [OF load_parents_subset [OF l] finite_all_parents this, of current_c2]
  show "((objs, ancestors1, q', visited'), objs, ancestors1, current_c2 # rest, visited2_bfs)
             \<in> inv_image (measures [\<lambda>(objs, v, q). card (all_parents objs - v), \<lambda>(objs, v, q). length q])
                   (\<lambda>(objs, a, q, v). (objs, v, q))"
    by auto
qed

declare collect_ancestors.simps [simp del] first_common.simps [simp del]

text \<open>\<^verbatim>\<open>Repository::_find_common_ancestor\<close>.\<close>

definition find_common_ancestor :: "commit_store \<Rightarrow> string \<Rightarrow> string \<Rightarrow> string option" where
  "find_common_ancestor objs commit_hash1 commit_hash2 =
     (if commit_hash1 = [] \<or> commit_hash2 = [] then None
      else if commit_hash1 = commit_hash2 then Some commit_hash1
      else first_common objs (collect_ancestors objs [commit_hash1] {commit_hash1} {})
             [commit_hash2] {commit_hash2})"

text \<open>
  Notions for stating what the two functions compute. \<open>parent_hit\<close>: the commit \<open>n\<close>
  steps along the first-parent walk from \<open>start\<close> loads and names \<open>old\<close> among its
  parents, first or not. \<open>walk_hit\<close>: that commit is \<open>old\<close> itself or names it.
\<close>

definition parent_hit :: "commit_store \<Rightarrow> string \<Rightarrow> nat \<Rightarrow> string \<Rightarrow> bool" where
  "parent_hit objs old n start \<longleftrightarrow>
     (\<exists>h c. first_parent_walk objs n start = Some h \<and> Commit_load_by_hash objs h = Some c
            \<and> old \<in> set (parent_hashes_hex c))"

definition walk_hit :: "commit_store \<Rightarrow> string \<Rightarrow> nat \<Rightarrow> string \<Rightarrow> bool" where
  "walk_hit objs old n start \<longleftrightarrow> first_parent_walk objs n start = Some old \<or> parent_hit objs old n start"

text \<open>
  The parent relation of the commits that load, the ancestors of a commit (the commit
  itself included), and stores without merge commits.
\<close>

definition parent_rel :: "commit_store \<Rightarrow> (string \<times> string) set" where
  "parent_rel objs = {(h, p). \<exists>c. Commit_load_by_hash objs h = Some c \<and> p \<in> set (parent_hashes_hex c)}"

definition ancestors_of :: "commit_store \<Rightarrow> string \<Rightarrow> string set" where
  "ancestors_of objs h = (parent_rel objs)\<^sup>* `` {h}"

definition no_merge_commits :: "commit_store \<Rightarrow> bool" where
  "no_merge_commits objs \<longleftrightarrow> (\<forall>(h, c) \<in> set objs. length (parent_hashes_hex c) \<le> 1)"

section \<open>SHA-1 (sha1.cpp)\<close>

text \<open>
  The hash works on \<^verbatim>\<open>uint32_t\<close>: addition wraps at \<open>2 ^ 32\<close>. \<^verbatim>\<open>S\<close> is the rotation
  to the left.
\<close>

definition SHA1_S :: "32 word \<Rightarrow> nat \<Rightarrow> 32 word" where
  "SHA1_S x n = push_bit n x OR drop_bit (32 - n) x"

definition f_t :: "nat \<Rightarrow> 32 word \<Rightarrow> 32 word \<Rightarrow> 32 word \<Rightarrow> 32 word" where
  "f_t t b c d =
     (if t < 20 then (b AND c) OR (NOT b AND d)
      else if t < 40 then b XOR c XOR d
      else if t < 60 then (b AND c) OR (b AND d) OR (c AND d)
      else b XOR c XOR d)"

definition K_t :: "nat \<Rightarrow> 32 word" where
  "K_t t =
     (if t < 20 then 0x5a827999
      else if t < 40 then 0x6ed9eba1
      else if t < 60 then 0x8f1bbcdc
      else 0xca62c1d6)"

text \<open>
  The padding loop \<^verbatim>\<open>while (padded_data.size() % 64 != 56) push_back(0)\<close>; it ends
  after at most 63 steps.
\<close>

function pad_zeros :: "byte list \<Rightarrow> byte list" where
  "pad_zeros padded_data =
     (if length padded_data mod 64 \<noteq> 56 then pad_zeros (padded_data @ [NUL]) else padded_data)"
  by pat_completeness auto
termination
proof (relation "measure (\<lambda>p. (120 - length p mod 64) mod 64)")
  show "wf (measure (\<lambda>p. (120 - length p mod 64) mod 64))" by simp
next
  fix padded_data :: "byte list"
  assume a: "length padded_data mod 64 \<noteq> 56"
  define r where "r = length padded_data mod 64"
  have r: "r < 64" "r \<noteq> 56" using a by (simp_all add: r_def)
  have "length (padded_data @ [NUL]) mod 64 = (r + 1) mod 64"
    by (simp add: r_def mod_Suc_eq)
  moreover have "(120 - (r + 1) mod 64) mod 64 < (120 - r) mod 64"
  proof -
    consider "r < 56" | "56 < r" "r < 63" | "r = 63" using r by linarith
    then show ?thesis
    proof cases
      case 1
      then have "(r + 1) mod 64 = r + 1" "(120 - (r + 1)) mod 64 = 55 - r" "(120 - r) mod 64 = 56 - r"
        by (simp_all add: mod_if)
      with 1 show ?thesis by simp
    next
      case 2
      then have "(r + 1) mod 64 = r + 1" "(120 - (r + 1)) mod 64 = 119 - r" "(120 - r) mod 64 = 120 - r"
        by (simp_all add: mod_if)
      with 2 show ?thesis by simp
    next
      case 3
      then show ?thesis by simp
    qed
  qed
  ultimately show "(padded_data @ [NUL], padded_data) \<in> measure (\<lambda>p. (120 - length p mod 64) mod 64)"
    by (simp add: r_def)
qed

declare pad_zeros.simps [simp del]

text \<open>The eight bytes of the length in bits, most significant first.\<close>

definition length_bytes :: "64 word \<Rightarrow> byte list" where
  "length_bytes original_length_bits =
     map (\<lambda>i. char_of (unat (drop_bit (56 - 8 * i) original_length_bits AND 0xFF))) [0..<8]"

text \<open>
  One chunk of 64 bytes: the sixteen big-endian words, the message schedule of 80
  words, and the 80 rounds.
\<close>

definition chunk_words :: "byte list \<Rightarrow> 32 word list" where
  "chunk_words chunk =
     map (\<lambda>j. push_bit 24 (of_char (chunk ! (j * 4 + 0)))
             OR push_bit 16 (of_char (chunk ! (j * 4 + 1)))
             OR push_bit 8 (of_char (chunk ! (j * 4 + 2)))
             OR push_bit 0 (of_char (chunk ! (j * 4 + 3)))) [0..<16]"

definition schedule :: "32 word list \<Rightarrow> 32 word list" where
  "schedule W16 =
     foldl (\<lambda>W j. W @ [SHA1_S (W ! (j - 3) XOR W ! (j - 8) XOR W ! (j - 14) XOR W ! (j - 16)) 1])
       W16 [16..<80]"

type_synonym sha_state = "32 word \<times> 32 word \<times> 32 word \<times> 32 word \<times> 32 word"

definition sha_round :: "32 word list \<Rightarrow> sha_state \<Rightarrow> nat \<Rightarrow> sha_state" where
  "sha_round W = (\<lambda>(A, B, C, D, E) t.
     (SHA1_S A 5 + f_t t B C D + E + K_t t + W ! t, A, SHA1_S B 30, C, D))"

definition process_chunk :: "sha_state \<Rightarrow> byte list \<Rightarrow> sha_state" where
  "process_chunk = (\<lambda>(H0, H1, H2, H3, H4) chunk.
     let W = schedule (chunk_words chunk)
     in case foldl (sha_round W) (H0, H1, H2, H3, H4) [0..<80] of
          (A, B, C, D, E) \<Rightarrow> (H0 + A, H1 + B, H2 + C, H3 + D, H4 + E))"

definition process_data :: "byte list \<Rightarrow> sha_state" where
  "process_data original_data =
     (let original_length_bits = (word_of_nat (length original_data) :: 64 word) * 8;
          padded_data = pad_zeros (original_data @ [CHR 0x80]) @ length_bytes original_length_bits;
          num_chunks = length padded_data div 64
      in foldl (\<lambda>H i. process_chunk H (take 64 (drop (i * 64) padded_data)))
           (0x67452301, 0xefcdab89, 0x98badcfe, 0x10325476, 0xc3d2e1f0) [0..<num_chunks])"

text \<open>\<^verbatim>\<open>sprintf\<close> with \<^verbatim>\<open>%08x\<close>: eight lower-case hexadecimal digits for each word.\<close>

definition hex_digit :: "nat \<Rightarrow> char" where
  "hex_digit d = (if d < 10 then char_of (48 + d) else char_of (87 + d))"

definition hex8 :: "32 word \<Rightarrow> string" where
  "hex8 w = map (\<lambda>i. hex_digit (unat (drop_bit (28 - 4 * i) w AND 0xF))) [0..<8]"

definition sha1 :: "byte list \<Rightarrow> string" where
  "sha1 data =
     (case process_data data of
        (H0, H1, H2, H3, H4) \<Rightarrow> hex8 H0 @ hex8 H1 @ hex8 H2 @ hex8 H3 @ hex8 H4)"

section \<open>Tokens (UserManager.cpp)\<close>

text \<open>
  The manager holds the server secret. The clock is an argument of the two
  operations that read it: the ticks of \<^verbatim>\<open>system_clock::now()\<close>.
\<close>

record TokenManager =
  m_serverSecret :: string
  m_initialized :: bool

definition initialize :: "string \<Rightarrow> TokenManager \<Rightarrow> TokenManager" where
  "initialize server_secret tm =
     (if m_initialized tm then tm
      else if server_secret = [] then tm
      else tm\<lparr>m_serverSecret := server_secret, m_initialized := True\<rparr>)"

definition createSignature :: "TokenManager \<Rightarrow> string \<Rightarrow> string" where
  "createSignature tm data_payload = sha1 (data_payload @ m_serverSecret tm)"

definition verifySignature :: "TokenManager \<Rightarrow> string \<Rightarrow> string \<Rightarrow> bool" where
  "verifySignature tm data_payload received_signature \<longleftrightarrow>
     createSignature tm data_payload = received_signature"

definition generateToken :: "TokenManager \<Rightarrow> int \<Rightarrow> string \<Rightarrow> int \<Rightarrow> string" where
  "generateToken tm now username duration_seconds =
     (if \<not> m_initialized tm then []
      else if username = [] \<or> CHR '':'' \<in> set username then []
      else let expiry_time_point = now + duration_seconds * ticks_per_second;
               expiry_timestamp = to_time_t expiry_time_point;
               data_payload = username @ '':'' @ string_of_int expiry_timestamp;
               signature = createSignature tm data_payload
           in data_payload @ '':'' @ signature)"

text \<open>
  \<^verbatim>\<open>validateToken\<close> returns its result together with \<^verbatim>\<open>out_username\<close>, which it
  clears as soon as the manager is known to be initialized.
\<close>

definition validateToken :: "TokenManager \<Rightarrow> int \<Rightarrow> string \<Rightarrow> string \<Rightarrow> bool \<times> string" where
  "validateToken tm now token out_username =
     (if \<not> m_initialized tm then (False, out_username)
      else (case getline (CHR '':'') token of
        None \<Rightarrow> (False, [])
      | Some (username_part, rest1) \<Rightarrow>
       (case getline (CHR '':'') rest1 of
          None \<Rightarrow> (False, [])
        | Some (expiry_timestamp_str_part, rest2) \<Rightarrow>
         (case getline LF rest2 of
            None \<Rightarrow> (False, [])
          | Some (signature_part, rest3) \<Rightarrow>
              if \<not> verifySignature tm (username_part @ '':'' @ expiry_timestamp_str_part) signature_part
              then (False, [])
              else (case stoll expiry_timestamp_str_part of
                      None \<Rightarrow> (False, [])
                    | Some expiry_timestamp \<Rightarrow>
                        if to_time_t now > expiry_timestamp then (False, [])
                        else (True, username_part))))))"

section \<open>The file system\<close>

text \<open>
  The file system maps a path to what is there. The functions below stand for the
  calls of \<^verbatim>\<open>std::filesystem\<close> and of the file streams that the repository makes.
  The system answers every query: there are no permission or device errors, and no
  symbolic links.
\<close>

type_synonym filesystem = "path \<Rightarrow> fs_node option"

text \<open>
  The elements of a path given as a string, \<^verbatim>\<open>operator/\<close> with a string on the right
  (an absolute right-hand side replaces the left one), and \<^verbatim>\<open>parent_path\<close>.
\<close>

definition path_elements :: "string \<Rightarrow> path" where
  "path_elements s =
     (if s \<noteq> [] \<and> hd s = CHR ''/'' then [''/''] else [])
       @ filter (\<lambda>e. e \<noteq> []) (split_on (CHR ''/'') s)"

definition slash :: "path \<Rightarrow> string \<Rightarrow> path" where
  "slash p s = (if s \<noteq> [] \<and> hd s = CHR ''/'' then path_elements s else p @ path_elements s)"

definition parent_path :: "path \<Rightarrow> path" where
  "parent_path p = butlast p"

text \<open>
  The system resolves a path before it looks it up: an element \<^verbatim>\<open>.\<close> names the
  directory itself and is skipped, and so is the empty element of a trailing
  separator.
\<close>

definition resolve :: "path \<Rightarrow> path" where
  "resolve p = filter (\<lambda>e. e \<noteq> ''.'' \<and> e \<noteq> []) p"

definition fs_exists :: "filesystem \<Rightarrow> path \<Rightarrow> bool" where
  "fs_exists fs p \<longleftrightarrow> fs (resolve p) \<noteq> None"

definition fs_is_regular_file :: "filesystem \<Rightarrow> path \<Rightarrow> bool" where
  "fs_is_regular_file fs p \<longleftrightarrow> (case fs (resolve p) of Some (File bytes) \<Rightarrow> True | _ \<Rightarrow> False)"

definition fs_is_directory :: "filesystem \<Rightarrow> path \<Rightarrow> bool" where
  "fs_is_directory fs p \<longleftrightarrow> fs (resolve p) = Some Dir"

definition read_file :: "filesystem \<Rightarrow> path \<Rightarrow> string option" where
  "read_file fs p = (case fs (resolve p) of Some (File bytes) \<Rightarrow> Some bytes | _ \<Rightarrow> None)"

text \<open>
  Opening a file for writing with \<^verbatim>\<open>std::ofstream\<close> (truncating), writing the bytes and
  closing. The stream opens when the parent is a directory and the path itself is
  not one; \<open>None\<close> is the stream that did not open.
\<close>

definition write_file :: "filesystem \<Rightarrow> path \<Rightarrow> string \<Rightarrow> filesystem option" where
  "write_file fs p bytes =
     (let q = resolve p
      in if q \<noteq> [] \<and> fs (butlast q) = Some Dir \<and> fs q \<noteq> Some Dir
         then Some (fs(q \<mapsto> File bytes)) else None)"

text \<open>
  \<^verbatim>\<open>create_directories\<close> makes every missing directory on the way to the path; it
  fails when a regular file is in the way.
\<close>

definition prefixes_of :: "path \<Rightarrow> path list" where
  "prefixes_of p = map (\<lambda>n. take n p) [1..<Suc (length p)]"

definition create_directories :: "filesystem \<Rightarrow> path \<Rightarrow> filesystem option" where
  "create_directories fs p =
     (let qs = prefixes_of (resolve p)
      in if list_ex (\<lambda>q. fs_is_regular_file fs q) qs then None
         else Some (foldl (\<lambda>f q. f(q \<mapsto> Dir)) fs qs))"

section \<open>Updating a reference (Repository.cpp)\<close>

datatype UpdateRefResult =
    SUCCESS | REF_NOT_FOUND_FOR_UPDATE | OLD_HASH_MISMATCH | NEW_COMMIT_NOT_FOUND
  | NOT_FAST_FORWARD | IO_ERROR | INVALID_REF_NAME | UNKNOWN_ERROR

text \<open>
  The current value of a reference in \<^verbatim>\<open>update_ref\<close>: the first word of the file when
  the file is there and the word has 40 characters. \<open>None\<close> is
  \<^verbatim>\<open>ref_existed_on_server == false\<close>; a file with other content counts as missing.
\<close>

definition read_ref_value :: "filesystem \<Rightarrow> path \<Rightarrow> string option" where
  "read_ref_value fs ref_file_path =
     (if fs_exists fs ref_file_path then
        (case read_file fs ref_file_path of
           None \<Rightarrow> None
         | Some bytes \<Rightarrow>
            (case extract_string bytes of
               None \<Rightarrow> None
             | Some (current_ref_value_on_server, rest) \<Rightarrow>
                 if length current_ref_value_on_server = 40
                 then Some current_ref_value_on_server else None))
      else None)"

text \<open>Step 6 of \<^verbatim>\<open>update_ref\<close>: the parent directory is made and the hash is written.\<close>

definition write_ref :: "filesystem \<Rightarrow> path \<Rightarrow> string \<Rightarrow> UpdateRefResult \<times> filesystem" where
  "write_ref fs ref_file_path new_commit_hash =
     (let parent_dir = parent_path ref_file_path;
          made = (if \<not> fs_exists fs parent_dir then create_directories fs parent_dir
                  else if \<not> fs_is_directory fs parent_dir then None
                  else Some fs)
      in case made of
           None \<Rightarrow> (IO_ERROR, fs)
         | Some fs1 \<Rightarrow>
            (case write_file fs1 ref_file_path (new_commit_hash @ [LF]) of
               None \<Rightarrow> (IO_ERROR, fs1)
             | Some fs2 \<Rightarrow> (SUCCESS, fs2)))"

text \<open>
  \<^verbatim>\<open>Repository::update_ref\<close>, with the result and the file system afterwards. The
  checks come in the order of the source: the name, the new hash and its commit, the
  kind of file at the path of the reference, the expected old value, fast-forward.
\<close>

definition update_ref ::
  "path \<Rightarrow> commit_store \<Rightarrow> filesystem \<Rightarrow> string \<Rightarrow> string \<Rightarrow> string option \<Rightarrow> bool
     \<Rightarrow> UpdateRefResult \<times> filesystem" where
  "update_ref mygit_dir objs fs ref_full_name new_commit_hash expected_old_commit_hash
       allow_non_fast_forward =
     (if \<not> (starts_with ''refs/heads/'' ref_full_name \<or> starts_with ''refs/tags/'' ref_full_name)
         \<or> last ref_full_name = CHR ''/'' \<or> contains_sub ''..'' ref_full_name
         \<or> contains_sub ''//'' ref_full_name
      then (INVALID_REF_NAME, fs)
      else if length new_commit_hash \<noteq> 40 \<or> \<not> list_all isxdigit new_commit_hash
      then (NEW_COMMIT_NOT_FOUND, fs)
      else if Commit_load_by_hash objs new_commit_hash = None
      then (NEW_COMMIT_NOT_FOUND, fs)
      else
        let ref_file_path = slash mygit_dir ref_full_name
        in if fs_exists fs ref_file_path \<and> \<not> fs_is_regular_file fs ref_file_path
           then (IO_ERROR, fs)
           else
             let current = read_ref_value fs ref_file_path;
                 ref_existed_on_server = (current \<noteq> None);
                 current_ref_value_on_server = (case current of Some v \<Rightarrow> v | None \<Rightarrow> [])
             in if expected_old_commit_hash \<noteq> None \<and> \<not> ref_existed_on_server
                then (REF_NOT_FOUND_FOR_UPDATE, fs)
                else if expected_old_commit_hash \<noteq> None
                        \<and> Some current_ref_value_on_server \<noteq> expected_old_commit_hash
                then (OLD_HASH_MISMATCH, fs)
                else if starts_with ''refs/heads/'' ref_full_name \<and> ref_existed_on_server
                        \<and> \<not> allow_non_fast_forward
                        \<and> current_ref_value_on_server \<noteq> []
                        \<and> \<not> is_fast_forward objs current_ref_value_on_server new_commit_hash
                then (NOT_FAST_FORWARD, fs)
                else write_ref fs ref_file_path new_commit_hash)"

section \<open>Paths relative to the work tree\<close>

text \<open>
  A path is absolute when it starts at the root directory. \<open>path_of_string\<close> keeps the
  empty last element of a string that ends in a separator. \<open>path_join\<close> is
  \<^verbatim>\<open>operator/\<close> of two paths and \<open>path_normal\<close> is \<^verbatim>\<open>lexically_normal\<close> of a path.
\<close>

definition is_absolute :: "path \<Rightarrow> bool" where
  "is_absolute p \<longleftrightarrow> p \<noteq> [] \<and> hd p = ''/''"

definition path_of_string :: "string \<Rightarrow> path" where
  "path_of_string s =
     path_elements s
       @ (if filter (\<lambda>e. e \<noteq> []) (split_on (CHR ''/'') s) \<noteq> [] \<and> last s = CHR ''/''
          then [[]] else [])"

definition path_join :: "path \<Rightarrow> path \<Rightarrow> path" where
  "path_join p q =
     (if is_absolute q then q
      else if q = [] then (if p \<noteq> [] \<and> last p \<noteq> [] \<and> p \<noteq> [''/''] then p @ [[]] else p)
      else (if p \<noteq> [] \<and> last p = [] then butlast p else p) @ q)"

definition path_normal :: "path \<Rightarrow> path" where
  "path_normal p = lexically_normal (generic_string p)"

text \<open>
  \<^verbatim>\<open>lexically_relative\<close>: the common elements are dropped, every element left of the
  base is climbed with \<^verbatim>\<open>..\<close>, and the rest of the path follows. The empty path is
  the answer when one path is absolute and the other is not, or when the base climbs
  above its start.
\<close>

fun mismatch :: "path \<Rightarrow> path \<Rightarrow> path \<times> path" where
  "mismatch (x # xs) (y # ys) = (if x = y then mismatch xs ys else (x # xs, y # ys))"
| "mismatch xs ys = (xs, ys)"

definition lexically_relative :: "path \<Rightarrow> path \<Rightarrow> path" where
  "lexically_relative p base =
     (if is_absolute p \<noteq> is_absolute base then []
      else case mismatch p base of (a, b) \<Rightarrow>
        if a = [] \<and> b = [] then [''.'']
        else
          let n = (\<Sum>e \<leftarrow> b. if e = ''..'' then - 1 else if e \<noteq> [] \<and> e \<noteq> ''.'' then 1 else (0::int))
          in if n < 0 then []
             else if n = 0 \<and> (a = [] \<or> hd a = []) then [''.'']
             else replicate (nat n) ''..'' @ a)"

text \<open>
  \<^verbatim>\<open>std::filesystem::relative\<close> makes both paths absolute and canonical first; without
  symbolic links that is \<open>path_normal\<close> of the path under the current directory.
\<close>

definition relative :: "path \<Rightarrow> path \<Rightarrow> path \<Rightarrow> path" where
  "relative cwd p base =
     lexically_relative (path_normal (path_join cwd p)) (path_normal (path_join cwd base))"

section \<open>Operations of the index (Index.cpp)\<close>

text \<open>
  \<^verbatim>\<open>IndexEntry::format_for_file\<close>: the seconds and the nanoseconds of the time are
  written apart; both divisions truncate towards zero.
\<close>

definition format_for_file :: "IndexEntry \<Rightarrow> string" where
  "format_for_file e =
     index_mode e @ '' '' @ blob_hash_hex e @ '' ''
       @ string_of_int (to_time_t (mtime e)) @ '' ''
       @ string_of_int (mtime e - to_time_t (mtime e) * ticks_per_second) @ '' ''
       @ string_of_nat (unat (file_size e)) @ '' ''
       @ generic_string (file_path e)"

text \<open>\<^verbatim>\<open>Index::write\<close>: one line for each entry. \<open>None\<close> is the return value \<^verbatim>\<open>false\<close>.\<close>

definition Index_write :: "filesystem \<Rightarrow> path \<Rightarrow> Index \<Rightarrow> filesystem option" where
  "Index_write fs index_file_path idx =
     write_file fs index_file_path (concat (map (\<lambda>e. format_for_file e @ [LF]) (index_entries idx)))"

text \<open>
  The guard \<^verbatim>\<open>if (!loaded) { if (!load() && exists(index file)) return false; }\<close> that
  opens \<^verbatim>\<open>remove_entry\<close>, \<^verbatim>\<open>rm\<close>, \<^verbatim>\<open>rm_cached\<close> and \<^verbatim>\<open>commit\<close>: whether the operation
  goes on, and the index afterwards.
\<close>

definition load_if_needed :: "filesystem \<Rightarrow> path \<Rightarrow> Index \<Rightarrow> bool \<times> Index" where
  "load_if_needed fs index_file_path idx =
     (if \<not> index_loaded idx then
        (case Index_load (fs (resolve index_file_path)) idx of
           (ok, idx') \<Rightarrow> (\<not> (\<not> ok \<and> fs_exists fs index_file_path), idx'))
      else (True, idx))"

text \<open>\<^verbatim>\<open>Index::remove_entry\<close>: every entry with that path is erased.\<close>

definition Index_remove_entry :: "filesystem \<Rightarrow> path \<Rightarrow> path \<Rightarrow> Index \<Rightarrow> bool \<times> Index" where
  "Index_remove_entry fs index_file_path relative_path idx =
     (case load_if_needed fs index_file_path idx of
        (False, idx') \<Rightarrow> (False, idx')
      | (True, idx') \<Rightarrow>
          let kept = filter (\<lambda>e. file_path e \<noteq> relative_path) (index_entries idx')
          in (length kept < length (index_entries idx'), idx'\<lparr>index_entries := kept\<rparr>))"

text \<open>
  \<^verbatim>\<open>std::lower_bound\<close> on the paths of the entries, as the library has it: a binary
  search with the variables \<^verbatim>\<open>first\<close> and \<^verbatim>\<open>len\<close>.
\<close>

function lower_bound :: "path list \<Rightarrow> path \<Rightarrow> nat \<Rightarrow> nat \<Rightarrow> nat" where
  "lower_bound keys val first len =
     (if 0 < len then
        let half = len div 2; middle = first + half
        in if keys ! middle < val then lower_bound keys val (middle + 1) (len - half - 1)
           else lower_bound keys val first half
      else first)"
  by pat_completeness auto
termination
  by (relation "measure (\<lambda>(keys, val, first, len). len)") auto

declare lower_bound.simps [simp del]

text \<open>\<^verbatim>\<open>Index::get_entry\<close>: the entry at the lower bound, when its path is the one sought.\<close>

definition Index_get_entry :: "Index \<Rightarrow> path \<Rightarrow> IndexEntry option" where
  "Index_get_entry idx relative_file_path =
     (let normalized_path = path_normal relative_file_path;
          es = index_entries idx;
          it = lower_bound (map file_path es) normalized_path 0 (length es)
      in if it < length es \<and> file_path (es ! it) = normalized_path then Some (es ! it) else None)"

section \<open>Removing a file (Repository.cpp)\<close>

text \<open>
  The members of \<^verbatim>\<open>Repository\<close> that the operations below use. The file system and the
  current directory of the process are arguments.
\<close>

record Repository =
  work_tree_root :: path
  mygit_dir :: path
  index_manager :: Index

definition index_file :: "Repository \<Rightarrow> path" where
  "index_file repo = path_join (mygit_dir repo) [''index'']"

text \<open>
  Step A of \<^verbatim>\<open>rm\<close> and of \<^verbatim>\<open>rm_cached\<close>: the argument is resolved against the current
  directory and normalised, and the path relative to the work tree is computed.
  \<open>None\<close> is a path outside the work tree.
\<close>

definition path_for_index :: "path \<Rightarrow> Repository \<Rightarrow> path \<Rightarrow> (path \<times> path) option" where
  "path_for_index cwd repo path_to_remove_original =
     (let absolute_path_to_remove =
            path_normal (if is_absolute path_to_remove_original then path_to_remove_original
                         else path_join cwd path_to_remove_original);
          relative_path_for_index = relative cwd absolute_path_to_remove (work_tree_root repo)
      in if relative_path_for_index = [] \<or> starts_with ''..'' (generic_string relative_path_for_index)
         then None
         else Some (absolute_path_to_remove, path_normal relative_path_for_index))"

text \<open>\<^verbatim>\<open>Repository::rm_cached\<close>: the result, the repository and the file system afterwards.\<close>

definition rm_cached ::
  "path \<Rightarrow> path \<Rightarrow> Repository \<times> filesystem \<Rightarrow> bool \<times> Repository \<times> filesystem" where
  "rm_cached cwd path_to_remove_original = (\<lambda>(repo, fs).
     case load_if_needed fs (index_file repo) (index_manager repo) of
       (False, idx) \<Rightarrow> (False, repo\<lparr>index_manager := idx\<rparr>, fs)
     | (True, idx) \<Rightarrow>
        let repo1 = repo\<lparr>index_manager := idx\<rparr>
        in case path_for_index cwd repo1 path_to_remove_original of
             None \<Rightarrow> (False, repo1, fs)
           | Some (absolute_path_to_remove, relative_path_for_index) \<Rightarrow>
              (case Index_remove_entry fs (index_file repo1) relative_path_for_index idx of
                 (entry_was_actually_removed, idx2) \<Rightarrow>
                   let repo2 = repo1\<lparr>index_manager := idx2\<rparr>
                   in if entry_was_actually_removed then
                        (case Index_write fs (index_file repo2) idx2 of
                           None \<Rightarrow> (False, repo2, fs)
                         | Some fs2 \<Rightarrow> (True, repo2, fs2))
                      else (True, repo2, fs)))"

text \<open>
  \<^verbatim>\<open>Repository::rm\<close>. The file in the work tree is read and hashed only when it exists;
  a directory at the path is a file that cannot be read. Step D hands the path
  \<^emph>\<open>relative to the work tree\<close> to \<^verbatim>\<open>rm_cached\<close>, which resolves it against the current
  directory again.
\<close>

definition rm ::
  "path \<Rightarrow> path \<Rightarrow> Repository \<times> filesystem \<Rightarrow> bool \<times> Repository \<times> filesystem" where
  "rm cwd path_to_remove_original = (\<lambda>(repo, fs).
     case load_if_needed fs (index_file repo) (index_manager repo) of
       (False, idx) \<Rightarrow> (False, repo\<lparr>index_manager := idx\<rparr>, fs)
     | (True, idx) \<Rightarrow>
        let repo1 = repo\<lparr>index_manager := idx\<rparr>
        in case path_for_index cwd repo1 path_to_remove_original of
             None \<Rightarrow> (False, repo1, fs)
           | Some (absolute_path_to_remove_in_wd, relative_path_for_index) \<Rightarrow>
              (case Index_get_entry idx relative_path_for_index of
                 None \<Rightarrow> (False, repo1, fs)
               | Some entry_in_index \<Rightarrow>
                  let existed_in_wd = fs_exists fs absolute_path_to_remove_in_wd;
                      wd_read = read_file fs absolute_path_to_remove_in_wd
                  in if existed_in_wd \<and> wd_read = None then (False, repo1, fs)
                     else if existed_in_wd
                             \<and> map_option (\<lambda>bytes. sha1 (Blob_serialize \<lparr>content = bytes\<rparr>)) wd_read
                                 \<noteq> Some (blob_hash_hex entry_in_index)
                     then (False, repo1, fs)
                     else
                       (case rm_cached cwd relative_path_for_index (repo1, fs) of
                          (False, repo2, fs2) \<Rightarrow> (False, repo2, fs2)
                        | (True, repo2, fs2) \<Rightarrow>
                            if existed_in_wd
                            then (True, repo2, fs2((resolve absolute_path_to_remove_in_wd) := None))
                            else (True, repo2, fs2))))"

section \<open>Committing (Repository.cpp)\<close>

text \<open>
  \<^verbatim>\<open>Index::add_or_update_entry\<close>: the first entry with the same path is replaced, or
  the entry is pushed at the back; then the entries are sorted.
\<close>

definition Index_add_or_update_entry ::
  "filesystem \<Rightarrow> path \<Rightarrow> IndexEntry \<Rightarrow> Index \<Rightarrow> bool \<times> Index" where
  "Index_add_or_update_entry fs index_file_path new_entry idx =
     (case load_if_needed fs index_file_path idx of
        (False, idx') \<Rightarrow> (False, idx')
      | (True, idx') \<Rightarrow>
          if length (blob_hash_hex new_entry) \<noteq> 40 then (False, idx')
          else
            let es = index_entries idx';
                es' = (if list_ex (\<lambda>e. file_path e = file_path new_entry) es
                       then takeWhile (\<lambda>e. file_path e \<noteq> file_path new_entry) es
                              @ new_entry # tl (dropWhile (\<lambda>e. file_path e \<noteq> file_path new_entry) es)
                       else es @ [new_entry])
            in (True, idx'\<lparr>index_entries := Index_sort_entries es'\<rparr>))"

text \<open>
  The first line of a file with the line end taken off, as \<^verbatim>\<open>commit\<close> and
  \<^verbatim>\<open>_get_head_commit_hash\<close> read \<^verbatim>\<open>HEAD\<close>; the first word of a file when it is 40
  characters long (\<^verbatim>\<open>stream >> word && word.length() == 40\<close>); and the reference
  behind \<^verbatim>\<open>ref: \<close> with its leading spaces erased.
\<close>

abbreviation CR :: char where "CR \<equiv> CHR 0x0D"

definition strip_line_end :: "string \<Rightarrow> string" where
  "strip_line_end line =
     (let line1 = (if line \<noteq> [] \<and> (last line = LF \<or> last line = CR) then butlast line else line)
      in if line1 \<noteq> [] \<and> last line1 = CR then butlast line1 else line1)"

definition first_line :: "filesystem \<Rightarrow> path \<Rightarrow> string option" where
  "first_line fs p =
     (case read_file fs p of
        None \<Rightarrow> None
      | Some bytes \<Rightarrow> map_option (\<lambda>(line, rest). strip_line_end line) (getline LF bytes))"

definition read_hash_word :: "filesystem \<Rightarrow> path \<Rightarrow> string option" where
  "read_hash_word fs p =
     (case read_file fs p of
        None \<Rightarrow> None
      | Some bytes \<Rightarrow>
         (case extract_string bytes of
            None \<Rightarrow> None
          | Some (word, rest) \<Rightarrow> if length word = 40 then Some word else None))"

definition symbolic_ref :: "string \<Rightarrow> string" where
  "symbolic_ref line = dropWhile (\<lambda>c. c = SP) (drop 5 line)"

text \<open>\<^verbatim>\<open>Repository::_get_head_commit_hash\<close>.\<close>

definition get_head_commit_hash :: "Repository \<Rightarrow> filesystem \<Rightarrow> string option" where
  "get_head_commit_hash repo fs =
     (let head_path = path_join (mygit_dir repo) [''HEAD'']
      in if \<not> fs_exists fs head_path then None
         else case first_line fs head_path of
           None \<Rightarrow> None
         | Some line \<Rightarrow>
             if starts_with ''ref: '' line \<and> 5 < length line then
               (let branch_file_path = slash (mygit_dir repo) (symbolic_ref line)
                in if fs_exists fs branch_file_path then read_hash_word fs branch_file_path
                   else None)
             else if length line = 40 then Some line
             else None)"

text \<open>
  \<^verbatim>\<open>Commit::save\<close> on the object directory as \<open>commit_store\<close> represents it. The hash
  is the SHA-1 of the serialized commit. An object that is there already is not
  written again. Otherwise the object file is written when the directory allows it
  (\<open>writable\<close>), and from then on the hash loads as what \<^verbatim>\<open>deserialize\<close> reads from the
  content.
\<close>

definition Commit_save :: "bool \<Rightarrow> commit_store \<Rightarrow> Commit \<Rightarrow> (string \<times> commit_store) option" where
  "Commit_save writable objs c =
     (let hash_hex = sha1 (Commit_serialize c)
      in if hash_hex = [] \<or> length hash_hex \<noteq> 40 then None
         else if map_of objs hash_hex \<noteq> None then Some (hash_hex, objs)
         else if \<not> writable then None
         else (case Commit_deserialize (Commit_content c) of
                 None \<Rightarrow> Some (hash_hex, objs)
               | Some stored \<Rightarrow> Some (hash_hex, objs @ [(hash_hex, stored)])))"

text \<open>
  \<^verbatim>\<open>std::filesystem::remove\<close> of a regular file. Nothing is removed where there is no
  file; the calls modelled here do not remove directories.
\<close>

definition fs_remove :: "filesystem \<Rightarrow> path \<Rightarrow> bool \<times> filesystem" where
  "fs_remove fs p =
     (case fs (resolve p) of
        Some (File bytes) \<Rightarrow> (True, fs((resolve p) := None))
      | _ \<Rightarrow> (False, fs))"

text \<open>
  What \<^verbatim>\<open>commit\<close> takes from its surroundings: the hash of the root tree that
  \<^verbatim>\<open>_build_trees_and_get_root_hash\<close> computes from the sorted entries (it writes tree
  objects only), the entries that \<^verbatim>\<open>_populate_index_from_tree_recursive\<close> adds for a
  tree, whether the object directory can be written, the configured user name and
  e-mail, the clock and the time zone that \<^verbatim>\<open>strftime\<close> gives.
\<close>

record commit_env =
  build_trees_and_get_root_hash :: "IndexEntry list \<Rightarrow> string option"
  entries_of_tree :: "string \<Rightarrow> IndexEntry list"
  objects_writable :: bool
  user_config :: "(string \<times> string) option"
  clock_now :: int
  local_timezone :: "string option"

text \<open>
  Step 4 of \<^verbatim>\<open>commit\<close>: the parents that \<^verbatim>\<open>HEAD\<close> gives, with the branch to update
  (empty when \<^verbatim>\<open>HEAD\<close> is detached), and the second parent of a merge from
  \<^verbatim>\<open>MERGE_HEAD\<close>. \<open>None\<close> is the early \<^verbatim>\<open>return std::nullopt\<close>.
\<close>

definition head_parents :: "Repository \<Rightarrow> filesystem \<Rightarrow> string option \<Rightarrow> string list \<times> string" where
  "head_parents repo fs head_commit_hash_opt =
     (let head_file = path_join (mygit_dir repo) [''HEAD'']
      in if fs_exists fs head_file then
           (case first_line fs head_file of
              None \<Rightarrow> ([], [])
            | Some head_content_line \<Rightarrow>
                if starts_with ''ref: '' head_content_line \<and> 5 < length head_content_line then
                  ((case head_commit_hash_opt of Some h \<Rightarrow> [h] | None \<Rightarrow> []),
                   symbolic_ref head_content_line)
                else if length head_content_line = 40 then
                  ((case head_commit_hash_opt of Some h \<Rightarrow> [h] | None \<Rightarrow> [head_content_line]), [])
                else ([], []))
         else ([], []))"

definition merge_parents ::
  "filesystem \<Rightarrow> path \<Rightarrow> string option \<Rightarrow> string list \<Rightarrow> string list option" where
  "merge_parents fs merge_head_file head_commit_hash_opt parent_commit_hashes =
     (let parents1 = (if parent_commit_hashes = [] \<and> head_commit_hash_opt \<noteq> None
                      then [the head_commit_hash_opt] else parent_commit_hashes)
      in if parents1 = [] then None
         else case read_hash_word fs merge_head_file of
                Some theirs_commit_hash \<Rightarrow> Some (parents1 @ [theirs_commit_hash])
              | None \<Rightarrow> None)"

text \<open>Step 5: author and committer.\<close>

definition commit_person :: "commit_env \<Rightarrow> PersonTimestamp" where
  "commit_person env =
     (let user_name = (case user_config env of
                         Some (n, e) \<Rightarrow> if n \<noteq> [] then n else ''Default User''
                       | None \<Rightarrow> ''Default User'');
          user_email = (case user_config env of
                         Some (n, e) \<Rightarrow> if e \<noteq> [] then e else ''user@example.com''
                       | None \<Rightarrow> ''user@example.com'')
      in \<lparr>person_name = user_name, person_email = user_email, timestamp = clock_now env,
          timezone_offset = (case local_timezone env of Some tz \<Rightarrow> tz | None \<Rightarrow> ''+0000'')\<rparr>)"

text \<open>
  Steps 8 and 9, after the commit object is saved: the branch file or \<^verbatim>\<open>HEAD\<close> is
  written (when it cannot be opened the function returns at once), \<^verbatim>\<open>MERGE_HEAD\<close> and
  \<^verbatim>\<open>FILE_CONFLICTS\<close> are removed after a merge, and the index is filled from the new
  tree and written.
\<close>

definition commit_finish ::
  "commit_env \<Rightarrow> bool \<Rightarrow> string \<Rightarrow> string \<Rightarrow> string \<Rightarrow> Repository \<times> filesystem
     \<Rightarrow> Repository \<times> filesystem" where
  "commit_finish env is_completing_merge current_branch_ref_path_for_update new_commit_hash
       root_tree_hash = (\<lambda>(repo, fs).
     let target = (if current_branch_ref_path_for_update \<noteq> []
                   then slash (mygit_dir repo) current_branch_ref_path_for_update
                   else path_join (mygit_dir repo) [''HEAD''])
     in case write_file fs target (new_commit_hash @ [LF]) of
          None \<Rightarrow> (repo, fs)
        | Some fs1 \<Rightarrow>
           let merge_head_file = path_join (mygit_dir repo) [''MERGE_HEAD''];
               file_conflicts = path_join (mygit_dir repo) [''FILE_CONFLICTS''];
               fs2 = (if is_completing_merge \<and> fs_exists fs1 merge_head_file then
                        (case fs_remove fs1 merge_head_file of
                           (False, fs') \<Rightarrow> fs'
                         | (True, fs') \<Rightarrow>
                             if fs_exists fs' file_conflicts then snd (fs_remove fs' file_conflicts)
                             else fs')
                      else fs1);
               idx = foldl (\<lambda>i e. snd (Index_add_or_update_entry fs2 (index_file repo) e i))
                       ((index_manager repo)\<lparr>index_entries := []\<rparr>)
                       (entries_of_tree env root_tree_hash);
               repo' = repo\<lparr>index_manager := idx\<rparr>
           in case Index_write fs2 (index_file repo') idx of
                None \<Rightarrow> (repo', fs2)
              | Some fs3 \<Rightarrow> (repo', fs3))"

text \<open>
  \<^verbatim>\<open>Repository::commit\<close>: the hash of the new commit or \<open>None\<close>, and the repository,
  the file system and the commits of the object directory afterwards.
\<close>

definition commit ::
  "commit_env \<Rightarrow> string \<Rightarrow> Repository \<times> filesystem \<times> commit_store
     \<Rightarrow> string option \<times> Repository \<times> filesystem \<times> commit_store" where
  "commit env msg = (\<lambda>(repo, fs, objs).
     case load_if_needed fs (index_file repo) (index_manager repo) of
       (False, idx) \<Rightarrow> (None, repo\<lparr>index_manager := idx\<rparr>, fs, objs)
     | (True, idx) \<Rightarrow>
        let repo1 = repo\<lparr>index_manager := idx\<rparr>;
            sorted_entries = Index_sort_entries (index_entries idx);
            merge_head_file = path_join (mygit_dir repo1) [''MERGE_HEAD''];
            is_completing_merge = fs_exists fs merge_head_file;
            head_commit_hash_opt = get_head_commit_hash repo1 fs;
            head_tree_hash_for_comparison =
              (case head_commit_hash_opt of
                 None \<Rightarrow> []
               | Some h \<Rightarrow> (case Commit_load_by_hash objs h of
                              None \<Rightarrow> []
                            | Some head_commit_obj \<Rightarrow> tree_hash_hex head_commit_obj))
        in if \<not> is_completing_merge \<and> sorted_entries = [] \<and> head_commit_hash_opt = None
           then (None, repo1, fs, objs)
           else case build_trees_and_get_root_hash env sorted_entries of
             None \<Rightarrow> (None, repo1, fs, objs)
           | Some root_tree_hash \<Rightarrow>
              if \<not> is_completing_merge \<and> head_commit_hash_opt \<noteq> None
                 \<and> root_tree_hash = head_tree_hash_for_comparison
              then (None, repo1, fs, objs)
              else case head_parents repo1 fs head_commit_hash_opt of
                (parent_commit_hashes, current_branch_ref_path_for_update) \<Rightarrow>
                 (case (if is_completing_merge
                        then merge_parents fs merge_head_file head_commit_hash_opt parent_commit_hashes
                        else Some parent_commit_hashes) of
                    None \<Rightarrow> (None, repo1, fs, objs)
                  | Some parents \<Rightarrow>
                     let new_commit_obj =
                           \<lparr>tree_hash_hex = root_tree_hash, parent_hashes_hex = parents,
                            author = commit_person env, committer = commit_person env,
                            message = msg\<rparr>
                     in case Commit_save (objects_writable env) objs new_commit_obj of
                          None \<Rightarrow> (None, repo1, fs, objs)
                        | Some (new_commit_hash, objs') \<Rightarrow>
                           (case commit_finish env is_completing_merge
                                   current_branch_ref_path_for_update new_commit_hash
                                   root_tree_hash (repo1, fs) of
                              (repo2, fs2) \<Rightarrow> (Some new_commit_hash, repo2, fs2, objs'))))"

section \<open>Merging (Repository.cpp)\<close>


















section \<open>Example data\<close>

text \<open>
  \<open>merge_store\<close>: the commit B merges A into P (parents P, A); A and P are roots.
  \<open>crisscross_store\<close>: A merges Y into X, B merges X into Y; X and Y have the root R
  as parent. \<open>fork_store\<close>: A and B both have the parent R. \<open>chain_store\<close>: B has
  the parent A, which has the parent R.
\<close>

definition example_person :: PersonTimestamp where
  "example_person = \<lparr>person_name = ''Default User'', person_email = ''user@example.com'',
                      timestamp = 0, timezone_offset = ''+0000''\<rparr>"

definition example_commit :: "string list \<Rightarrow> Commit" where
  "example_commit parents =
     \<lparr>tree_hash_hex = ''eeeeeeeeeeeeeeeeeeeeeeeeeeeeeeeeeeeeeeee'', parent_hashes_hex = parents,
      author = example_person, committer = example_person, message = ''m''\<rparr>"

definition hash_A :: string where "hash_A = ''aaaaaaaaaaaaaaaaaaaaaaaaaaaaaaaaaaaaaaaa''"
definition hash_B :: string where "hash_B = ''bbbbbbbbbbbbbbbbbbbbbbbbbbbbbbbbbbbbbbbb''"
definition hash_P :: string where "hash_P = ''cccccccccccccccccccccccccccccccccccccccc''"
definition hash_X :: string where "hash_X = ''1111111111111111111111111111111111111111''"
definition hash_Y :: string where "hash_Y = ''2222222222222222222222222222222222222222''"
definition hash_R :: string where "hash_R = ''0000000000000000000000000000000000000000''"

definition merge_store :: commit_store where
  "merge_store = [(hash_B, example_commit [hash_P, hash_A]), (hash_P, example_commit []),
                  (hash_A, example_commit [])]"

definition crisscross_store :: commit_store where
  "crisscross_store =
     [(hash_A, example_commit [hash_X, hash_Y]), (hash_B, example_commit [hash_Y, hash_X]),
      (hash_X, example_commit [hash_R]), (hash_Y, example_commit [hash_R]),
      (hash_R, example_commit [])]"

definition fork_store :: commit_store where
  "fork_store = [(hash_A, example_commit [hash_R]), (hash_B, example_commit [hash_R]),
                 (hash_R, example_commit [])]"

definition chain_store :: commit_store where
  "chain_store = [(hash_B, example_commit [hash_A]), (hash_A, example_commit [hash_R]),
                  (hash_R, example_commit [])]"

text \<open>
  A tree with a file and a directory; a commit whose author time is one and a half
  seconds after the epoch; a commit whose message ends in a line feed.
\<close>

definition example_tree :: Tree where
  "example_tree = \<lparr>entries = [\<lparr>entry_mode = ''100644'', entry_name = ''a.txt'',
                                 entry_sha1_hash_hex = hash_A\<rparr>,
                               \<lparr>entry_mode = ''040000'', entry_name = ''src'',
                                 entry_sha1_hash_hex = hash_B\<rparr>]\<rparr>"

definition subsecond_commit :: Commit where
  "subsecond_commit = (example_commit [])\<lparr>author := example_person\<lparr>timestamp := 1500000000\<rparr>\<rparr>"

definition newline_commit :: Commit where
  "newline_commit = (example_commit [])\<lparr>message := ''fix'' @ [LF]\<rparr>"

text \<open>A token manager initialized with a secret.\<close>

definition example_manager :: TokenManager where
  "example_manager = initialize ''s3cret'' \<lparr>m_serverSecret = [], m_initialized = False\<rparr>"

text \<open>
  A repository at \<^verbatim>\<open>/repo\<close> with the branch \<^verbatim>\<open>main\<close>, a reference file that holds no
  hash, and a directory where a reference file would be.
\<close>

definition example_fs :: filesystem where
  "example_fs =
     [[''/''] \<mapsto> Dir, [''/'', ''repo''] \<mapsto> Dir, [''/'', ''repo'', ''.biogit''] \<mapsto> Dir,
      [''/'', ''repo'', ''.biogit'', ''refs''] \<mapsto> Dir,
      [''/'', ''repo'', ''.biogit'', ''refs'', ''heads''] \<mapsto> Dir,
      [''/'', ''repo'', ''.biogit'', ''refs'', ''heads'', ''main''] \<mapsto> File (hash_R @ [LF]),
      [''/'', ''repo'', ''.biogit'', ''refs'', ''heads'', ''broken''] \<mapsto> File ''not a hash'',
      [''/'', ''repo'', ''.biogit'', ''refs'', ''heads'', ''topic''] \<mapsto> Dir]"

definition example_mygit_dir :: path where
  "example_mygit_dir = [''/'', ''repo'', ''.biogit'']"

text \<open>
  A repository at \<^verbatim>\<open>/repo\<close> whose index holds \<^verbatim>\<open>sub/f.txt\<close>; the directory \<^verbatim>\<open>sub\<close>
  exists, the file does not.
\<close>

definition rm_index_line :: string where
  "rm_index_line = ''100644 '' @ hash_A @ '' 12 500 6 sub/f.txt''"

definition rm_fs :: filesystem where
  "rm_fs =
     [[''/''] \<mapsto> Dir, [''/'', ''repo''] \<mapsto> Dir, [''/'', ''repo'', ''.biogit''] \<mapsto> Dir,
      [''/'', ''repo'', ''sub''] \<mapsto> Dir,
      [''/'', ''repo'', ''.biogit'', ''index''] \<mapsto> File (rm_index_line @ [LF])]"

definition rm_repo :: Repository where
  "rm_repo = \<lparr>work_tree_root = [''/'', ''repo''], mygit_dir = [''/'', ''repo'', ''.biogit''],
              index_manager = \<lparr>index_entries = [], index_loaded = False\<rparr>\<rparr>"

definition rm_entry :: IndexEntry where
  "rm_entry = \<lparr>index_mode = ''100644'', blob_hash_hex = hash_A, mtime = 12000000500,
               file_size = 6, file_path = [''sub'', ''f.txt'']\<rparr>"

text \<open>
  A repository on the branch \<^verbatim>\<open>main\<close> at the commit \<open>hash_R\<close>, without an index file;
  the same with a \<^verbatim>\<open>MERGE_HEAD\<close> that holds no hash and with one that holds \<open>hash_A\<close>;
  surroundings in which the tree built from the index differs from the tree of
  \<open>hash_R\<close>, and in which it is the same.
\<close>

definition commit_fs :: filesystem where
  "commit_fs =
     [[''/''] \<mapsto> Dir, [''/'', ''repo''] \<mapsto> Dir, [''/'', ''repo'', ''.biogit''] \<mapsto> Dir,
      [''/'', ''repo'', ''.biogit'', ''refs''] \<mapsto> Dir,
      [''/'', ''repo'', ''.biogit'', ''refs'', ''heads''] \<mapsto> Dir,
      [''/'', ''repo'', ''.biogit'', ''refs'', ''heads'', ''main''] \<mapsto> File (hash_R @ [LF]),
      [''/'', ''repo'', ''.biogit'', ''HEAD''] \<mapsto> File (''ref: refs/heads/main'' @ [LF])]"

definition commit_env_example :: commit_env where
  "commit_env_example =
     \<lparr>build_trees_and_get_root_hash = (\<lambda>es. Some ''dddddddddddddddddddddddddddddddddddddddd''),
      entries_of_tree = (\<lambda>h. []), objects_writable = True, user_config = None,
      clock_now = 0, local_timezone = None\<rparr>"

definition commit_fs_merging :: filesystem where
  "commit_fs_merging = commit_fs([''/'', ''repo'', ''.biogit'', ''MERGE_HEAD''] \<mapsto> File ''garbage'')"

definition commit_fs_merge_ok :: filesystem where
  "commit_fs_merge_ok = commit_fs([''/'', ''repo'', ''.biogit'', ''MERGE_HEAD''] \<mapsto> File (hash_A @ [LF]))"

definition commit_env_same :: commit_env where
  "commit_env_same =
     commit_env_example\<lparr>build_trees_and_get_root_hash :=
                          (\<lambda>es. Some ''eeeeeeeeeeeeeeeeeeeeeeeeeeeeeeeeeeeeeeee'')\<rparr>"












section \<open>Properties of the tree ordering\<close>

lemma add_entry_sorted:
  "length (entry_sha1_hash_hex e) = 40 \<Longrightarrow> sorted (map name_for_sort (entries (add_entry t e)))"
  by (simp add: add_entry_def sort_entries_def)

lemma add_entry_mset:
  "length (entry_sha1_hash_hex e) = 40 \<Longrightarrow> mset (entries (add_entry t e)) = mset (entries t) + {#e#}"
  by (simp add: add_entry_def sort_entries_def)

lemma fold_add_entry_sorted:
  "sorted (map name_for_sort (entries t)) \<Longrightarrow>
   sorted (map name_for_sort (entries (fold (\<lambda>e t. add_entry t e) es t)))"
  by (induction es arbitrary: t) (auto simp: add_entry_def sort_entries_def)

text \<open>
  Claim C8, as the code has it. A tree that is built from the empty tree by calls of
  \<^verbatim>\<open>add_entry\<close> has its entries sorted by the name with a slash appended for a
  directory. Each call of \<^verbatim>\<open>add_entry\<close> with a 40-character hash leaves the whole
  vector sorted, whatever its order was before, and adds exactly the new entry.
  \<^verbatim>\<open>serialize\<close> emits the entries in the order of the vector. (\<^verbatim>\<open>deserialize\<close> is
  not covered: it keeps the order of the bytes.)
\<close>

theorem Tree_sorted_by_add_entry:
  "sorted (map name_for_sort (entries (fold (\<lambda>e t. add_entry t e) es \<lparr>entries = []\<rparr>)))
   \<and> (length (entry_sha1_hash_hex e) = 40 \<longrightarrow>
        sorted (map name_for_sort (entries (add_entry t e)))
        \<and> mset (entries (add_entry t e)) = mset (entries t) + {#e#})
   \<and> Tree_serialize t =
       ''tree'' @ [SP] @ string_of_nat (length (concat (map TreeEntry_serialize (entries t))))
         @ [NUL] @ concat (map TreeEntry_serialize (entries t))"
proof (intro conjI impI)
  show "sorted (map name_for_sort (entries (fold (\<lambda>e t. add_entry t e) es \<lparr>entries = []\<rparr>)))"
    by (rule fold_add_entry_sorted) simp
next
  assume "length (entry_sha1_hash_hex e) = 40"
  then show "sorted (map name_for_sort (entries (add_entry t e)))"
    by (rule add_entry_sorted)
next
  assume "length (entry_sha1_hash_hex e) = 40"
  then show "mset (entries (add_entry t e)) = mset (entries t) + {#e#}"
    by (rule add_entry_mset)
next
  show "Tree_serialize t =
       ''tree'' @ [SP] @ string_of_nat (length (concat (map TreeEntry_serialize (entries t))))
         @ [NUL] @ concat (map TreeEntry_serialize (entries t))"
    by (simp add: Tree_serialize_def Tree_content_def)
qed

text \<open>
  The theorem at a tree whose vector was filled out of order (a file \<^verbatim>\<open>b\<close> before a
  directory \<^verbatim>\<open>a\<close>) and a new file \<^verbatim>\<open>a.txt\<close>: after \<^verbatim>\<open>add_entry\<close> the vector is
  sorted, \<^verbatim>\<open>a.txt\<close> before \<^verbatim>\<open>a/\<close> before \<^verbatim>\<open>b\<close>.
\<close>

theorem Tree_sorted_by_add_entry_witness:
  "length (entry_sha1_hash_hex
      \<lparr>entry_mode = ''100644'', entry_name = ''a.txt'',
        entry_sha1_hash_hex = ''cccccccccccccccccccccccccccccccccccccccc''\<rparr>) = 40
   \<and> sorted (map name_for_sort (entries (add_entry
        \<lparr>entries = [\<lparr>entry_mode = ''100644'', entry_name = ''b'',
                      entry_sha1_hash_hex = ''aaaaaaaaaaaaaaaaaaaaaaaaaaaaaaaaaaaaaaaa''\<rparr>,
                    \<lparr>entry_mode = ''040000'', entry_name = ''a'',
                      entry_sha1_hash_hex = ''bbbbbbbbbbbbbbbbbbbbbbbbbbbbbbbbbbbbbbbb''\<rparr>]\<rparr>
        \<lparr>entry_mode = ''100644'', entry_name = ''a.txt'',
          entry_sha1_hash_hex = ''cccccccccccccccccccccccccccccccccccccccc''\<rparr>)))"
proof -
  have h: "length (entry_sha1_hash_hex
      \<lparr>entry_mode = ''100644'', entry_name = ''a.txt'',
        entry_sha1_hash_hex = ''cccccccccccccccccccccccccccccccccccccccc''\<rparr>) = 40"
    by simp
  from h Tree_sorted_by_add_entry [of "[]"
      "\<lparr>entry_mode = ''100644'', entry_name = ''a.txt'',
        entry_sha1_hash_hex = ''cccccccccccccccccccccccccccccccccccccccc''\<rparr>"
      "\<lparr>entries = [\<lparr>entry_mode = ''100644'', entry_name = ''b'',
                      entry_sha1_hash_hex = ''aaaaaaaaaaaaaaaaaaaaaaaaaaaaaaaaaaaaaaaa''\<rparr>,
                    \<lparr>entry_mode = ''040000'', entry_name = ''a'',
                      entry_sha1_hash_hex = ''bbbbbbbbbbbbbbbbbbbbbbbbbbbbbbbbbbbbbbbb''\<rparr>]\<rparr>"]
  show ?thesis by blast
qed

text \<open>
  Claim C8 as stated fails for a tree that comes out of \<^verbatim>\<open>Tree::deserialize\<close>: the
  body below holds the entry \<^verbatim>\<open>b\<close> before the entry \<^verbatim>\<open>a\<close>; it deserializes to a
  tree whose vector has that order, which is not sorted.
\<close>

theorem Tree_deserialize_unsorted_counterexample:
  "Tree_deserialize (''100644 b'' @ [NUL] @ ''aaaaaaaaaaaaaaaaaaaaaaaaaaaaaaaaaaaaaaaa''
                     @ ''100644 a'' @ [NUL] @ ''bbbbbbbbbbbbbbbbbbbbbbbbbbbbbbbbbbbbbbbb'')
     = Some \<lparr>entries = [\<lparr>entry_mode = ''100644'', entry_name = ''b'',
                           entry_sha1_hash_hex = ''aaaaaaaaaaaaaaaaaaaaaaaaaaaaaaaaaaaaaaaa''\<rparr>,
                         \<lparr>entry_mode = ''100644'', entry_name = ''a'',
                           entry_sha1_hash_hex = ''bbbbbbbbbbbbbbbbbbbbbbbbbbbbbbbbbbbbbbbb''\<rparr>]\<rparr>
   \<and> \<not> sorted (map name_for_sort
         [\<lparr>entry_mode = ''100644'', entry_name = ''b'',
            entry_sha1_hash_hex = ''aaaaaaaaaaaaaaaaaaaaaaaaaaaaaaaaaaaaaaaa''\<rparr>,
          \<lparr>entry_mode = ''100644'', entry_name = ''a'',
            entry_sha1_hash_hex = ''bbbbbbbbbbbbbbbbbbbbbbbbbbbbbbbbbbbbbbbb''\<rparr>])"
  by (simp add: Tree_deserialize_def Tree_deserialize_from.simps name_for_sort_def is_directory_def)

section \<open>Properties of loading the index\<close>






section \<open>Properties of the fast-forward check\<close>

lemmas ex_defs = example_commit_def hash_A_def hash_B_def hash_P_def hash_X_def hash_Y_def hash_R_def
  merge_store_def crisscross_store_def fork_store_def chain_store_def Commit_load_by_hash_def

lemma first_parent_walk_add:
  "first_parent_walk objs (a + b) x =
     (case first_parent_walk objs a x of None \<Rightarrow> None | Some y \<Rightarrow> first_parent_walk objs b y)"
  by (induction a arbitrary: x) (auto split: option.splits)

lemma walk_hit_Suc:
  "first_parent objs cur = Some p \<Longrightarrow> walk_hit objs old (Suc k) cur = walk_hit objs old k p"
  by (simp add: walk_hit_def parent_hit_def)

lemma walk_hit_Suc_None:
  "first_parent objs cur = None \<Longrightarrow> \<not> walk_hit objs old (Suc k) cur"
  by (simp add: walk_hit_def parent_hit_def)

lemma walk_hit_0:
  "walk_hit objs old 0 cur \<longleftrightarrow>
     cur = old \<or> (\<exists>c. Commit_load_by_hash objs cur = Some c \<and> old \<in> set (parent_hashes_hex c))"
  by (auto simp: walk_hit_def parent_hit_def)

lemma walk_hit_shift:
  assumes "first_parent_walk objs j x = Some y"
  shows "walk_hit objs old (j + m) x = walk_hit objs old m y"
  using assms by (simp add: walk_hit_def parent_hit_def first_parent_walk_add)

lemma first_parent_hd:
  "Commit_load_by_hash objs cur = Some c \<Longrightarrow> parent_hashes_hex c \<noteq> [] \<Longrightarrow>
   first_parent objs cur = Some (hd (parent_hashes_hex c))"
  by (cases "parent_hashes_hex c") (auto simp: first_parent_def)

lemma loop_sound:
  "is_fast_forward_loop objs old cur vis d \<Longrightarrow> \<exists>k. d + k < 1000 \<and> walk_hit objs old k cur"
proof (induction objs old cur vis d rule: is_fast_forward_loop.induct)
  case (1 objs old cur vis d)
  from "1.prems" have g: "cur \<noteq> []" "d < 1000"
    by (auto simp: is_fast_forward_loop.simps [of objs old cur vis d] split: if_splits)
  show ?case
  proof (cases "cur = old")
    case True
    then have "walk_hit objs old 0 cur" by (simp add: walk_hit_0)
    with g show ?thesis by (intro exI [of _ 0]) simp
  next
    case ne: False
    with "1.prems" g obtain c where c: "cur \<notin> vis" "Commit_load_by_hash objs cur = Some c"
        "parent_hashes_hex c \<noteq> []"
      by (auto simp: is_fast_forward_loop.simps [of objs old cur vis d] split: if_splits option.splits)
    show ?thesis
    proof (cases "old \<in> set (parent_hashes_hex c)")
      case True
      with c have "walk_hit objs old 0 cur" by (simp add: walk_hit_0)
      with g show ?thesis by (intro exI [of _ 0]) simp
    next
      case False
      with "1.prems" g ne c
      have "is_fast_forward_loop objs old (hd (parent_hashes_hex c)) (insert cur vis) (d + 1)"
        by (simp add: is_fast_forward_loop.simps [of objs old cur vis d])
      with "1.IH" [OF _ ne c(1) c(2) c(3) False] g
      obtain k where k: "d + 1 + k < 1000" "walk_hit objs old k (hd (parent_hashes_hex c))"
        by auto
      from k(2) have "walk_hit objs old (Suc k) cur"
        by (simp add: walk_hit_Suc [OF first_parent_hd [OF c(2) c(3)]])
      with k(1) show ?thesis by (intro exI [of _ "Suc k"]) simp
    qed
  qed
qed

lemma loop_complete:
  assumes "old \<noteq> []"
  shows "walk_hit objs old k cur \<Longrightarrow> (\<forall>j<k. \<not> walk_hit objs old j cur) \<Longrightarrow>
     (\<forall>j\<le>k. \<forall>h. first_parent_walk objs j cur = Some h \<longrightarrow> h \<notin> vis) \<Longrightarrow> d + k < 1000 \<Longrightarrow>
     is_fast_forward_loop objs old cur vis d"
proof (induction k arbitrary: cur vis d)
  case 0
  from "0.prems"(3) have nv: "cur \<notin> vis" by simp
  from "0.prems"(1) consider "cur = old"
    | c where "cur \<noteq> old" "Commit_load_by_hash objs cur = Some c" "old \<in> set (parent_hashes_hex c)"
    by (auto simp: walk_hit_0)
  then show ?case
  proof cases
    case 1
    with assms "0.prems"(4) show ?thesis
      by (subst is_fast_forward_loop.simps) simp
  next
    case 2
    then have "cur \<noteq> []" by (auto simp: Commit_load_by_hash_def split: if_splits)
    with 2 nv "0.prems"(4) show ?thesis
      by (subst is_fast_forward_loop.simps) auto
  qed
next
  case (Suc k)
  from Suc.prems(2) have n0: "\<not> walk_hit objs old 0 cur" by blast
  then have ne: "cur \<noteq> old" by (simp add: walk_hit_0)
  from Suc.prems(1) obtain p where p: "first_parent objs cur = Some p"
    using walk_hit_Suc_None [of objs cur old k] by (cases "first_parent objs cur") auto
  then obtain c where c: "Commit_load_by_hash objs cur = Some c" "parent_hashes_hex c \<noteq> []"
      "p = hd (parent_hashes_hex c)"
    by (auto simp: first_parent_def split: option.splits list.splits)
  from c(1) have nemp: "cur \<noteq> []" by (auto simp: Commit_load_by_hash_def split: if_splits)
  from n0 c have nin: "old \<notin> set (parent_hashes_hex c)" by (auto simp: walk_hit_0)
  from Suc.prems(3) have nv: "cur \<notin> vis" by (metis first_parent_walk.simps(1) le0)
  have h1: "walk_hit objs old k p"
    using Suc.prems(1) by (simp add: walk_hit_Suc [OF p])
  have h2: "\<forall>j<k. \<not> walk_hit objs old j p"
  proof (intro allI impI)
    fix j assume "j < k"
    then have "\<not> walk_hit objs old (Suc j) cur" using Suc.prems(2) by simp
    then show "\<not> walk_hit objs old j p" by (simp add: walk_hit_Suc [OF p])
  qed
  have h3: "\<forall>j\<le>k. \<forall>h. first_parent_walk objs j p = Some h \<longrightarrow> h \<notin> insert cur vis"
  proof (intro allI impI)
    fix j h assume j: "j \<le> k" and w: "first_parent_walk objs j p = Some h"
    then have w': "first_parent_walk objs (Suc j) cur = Some h" using p by simp
    with Suc.prems(3) j have "h \<notin> vis" by (meson Suc_le_mono)
    moreover have "h \<noteq> cur"
    proof
      assume "h = cur"
      with w' have "walk_hit objs old (Suc j + (k - j)) cur = walk_hit objs old (k - j) cur"
        by (intro walk_hit_shift) simp
      moreover have "Suc j + (k - j) = Suc k" using j by simp
      ultimately have "walk_hit objs old (k - j) cur" using Suc.prems(1) by simp
      moreover have "k - j < Suc k" by simp
      ultimately show False using Suc.prems(2) by blast
    qed
    ultimately show "h \<notin> insert cur vis" by simp
  qed
  from Suc.prems(4) have h4: "(d + 1) + k < 1000" by simp
  from Suc.IH [OF h1 h2 h3 h4]
  have "is_fast_forward_loop objs old p (insert cur vis) (d + 1)" .
  with ne nemp nv c nin Suc.prems(4) show ?case
    by (subst is_fast_forward_loop.simps) simp
qed

lemma loop_iff:
  assumes "old \<noteq> []"
  shows "is_fast_forward_loop objs old new {} 0 \<longleftrightarrow> (\<exists>k<1000. walk_hit objs old k new)"
proof
  assume "is_fast_forward_loop objs old new {} 0"
  from loop_sound [OF this] show "\<exists>k<1000. walk_hit objs old k new" by auto
next
  assume "\<exists>k<1000. walk_hit objs old k new"
  then obtain k0 where k0: "k0 < 1000" "walk_hit objs old k0 new" by blast
  define k where "k = (LEAST k. walk_hit objs old k new)"
  have hk: "walk_hit objs old k new" unfolding k_def using k0(2) by (rule LeastI)
  have mk: "\<forall>j<k. \<not> walk_hit objs old j new" unfolding k_def using not_less_Least by blast
  have "k \<le> k0" unfolding k_def using k0(2) by (rule Least_le)
  with k0 have "0 + k < 1000" by simp
  from loop_complete [OF assms hk mk _ this] show "is_fast_forward_loop objs old new {} 0" by simp
qed


lemma linear_load:
  "no_merge_commits objs \<Longrightarrow> Commit_load_by_hash objs h = Some c \<Longrightarrow> length (parent_hashes_hex c) \<le> 1"
  by (auto simp: no_merge_commits_def Commit_load_by_hash_def split: if_splits dest!: map_of_SomeD)

lemma reaches_within_iff:
  "reaches_within objs k h t \<longleftrightarrow> (\<exists>m\<le>k. first_parent_walk objs m h = Some t)"
proof (induction k arbitrary: h)
  case 0
  then show ?case by auto
next
  case (Suc k)
  show ?case
  proof
    assume "reaches_within objs (Suc k) h t"
    then consider "h = t" | p where "first_parent objs h = Some p" "reaches_within objs k p t"
      by (auto split: option.splits)
    then show "\<exists>m\<le>Suc k. first_parent_walk objs m h = Some t"
    proof cases
      case 1
      then show ?thesis by (intro exI [of _ 0]) simp
    next
      case 2
      with Suc.IH obtain m where "m \<le> k" "first_parent_walk objs m p = Some t" by blast
      with 2(1) show ?thesis by (intro exI [of _ "Suc m"]) simp
    qed
  next
    assume "\<exists>m\<le>Suc k. first_parent_walk objs m h = Some t"
    then obtain m where m: "m \<le> Suc k" "first_parent_walk objs m h = Some t" by blast
    show "reaches_within objs (Suc k) h t"
    proof (cases m)
      case 0
      with m show ?thesis by simp
    next
      case (Suc m')
      with m obtain p where p: "first_parent objs h = Some p" "first_parent_walk objs m' p = Some t"
        by (auto split: option.splits)
      with m Suc have "\<exists>m\<le>k. first_parent_walk objs m p = Some t" by auto
      with Suc.IH p(1) show ?thesis by simp
    qed
  qed
qed

lemma first_parent_walk_Suc_right:
  "first_parent_walk objs (Suc n) x =
     (case first_parent_walk objs n x of None \<Rightarrow> None | Some y \<Rightarrow> first_parent objs y)"
  using first_parent_walk_add [of objs n 1 x] by (auto split: option.splits)

lemma first_parent_parent_hit:
  "first_parent objs h = Some p \<Longrightarrow> \<exists>c. Commit_load_by_hash objs h = Some c \<and> p \<in> set (parent_hashes_hex c)"
  by (auto simp: first_parent_def split: option.splits list.splits)

lemma walk_hit_parent_hit:
  assumes "old \<noteq> new"
  shows "(\<exists>k<1000. walk_hit objs old k new) \<longleftrightarrow> (\<exists>n<1000. parent_hit objs old n new)"
proof
  assume "\<exists>k<1000. walk_hit objs old k new"
  then obtain k where k: "k < 1000" "walk_hit objs old k new" by blast
  show "\<exists>n<1000. parent_hit objs old n new"
  proof (cases "parent_hit objs old k new")
    case True
    with k show ?thesis by blast
  next
    case False
    with k have w: "first_parent_walk objs k new = Some old" by (simp add: walk_hit_def)
    with assms obtain k' where k': "k = Suc k'" by (cases k) auto
    with w obtain h where h: "first_parent_walk objs k' new = Some h" "first_parent objs h = Some old"
      by (auto simp: first_parent_walk_Suc_right simp del: first_parent_walk.simps split: option.splits)
    from first_parent_parent_hit [OF h(2)] h(1) have "parent_hit objs old k' new"
      by (auto simp: parent_hit_def)
    with k k' show ?thesis by (intro exI [of _ k']) simp
  qed
next
  assume "\<exists>n<1000. parent_hit objs old n new"
  then show "\<exists>k<1000. walk_hit objs old k new" by (auto simp: walk_hit_def)
qed

lemma is_fast_forward_iff:
  "is_fast_forward objs old new \<longleftrightarrow> old = [] \<or> old = new \<or> (\<exists>n<1000. parent_hit objs old n new)"
proof (cases "old = [] \<or> old = new")
  case True
  then show ?thesis by (auto simp: is_fast_forward_def)
next
  case False
  then have "is_fast_forward objs old new = is_fast_forward_loop objs old new {} 0"
    by (simp add: is_fast_forward_def)
  also have "\<dots> \<longleftrightarrow> (\<exists>k<1000. walk_hit objs old k new)" using False by (simp add: loop_iff)
  also have "\<dots> \<longleftrightarrow> (\<exists>n<1000. parent_hit objs old n new)" using False by (simp add: walk_hit_parent_hit)
  finally show ?thesis using False by simp
qed

lemma reaches_imp_fast_forward:
  assumes "reaches_within objs 1000 new old"
  shows "is_fast_forward objs old new"
proof -
  from assms obtain m where m: "m \<le> 1000" "first_parent_walk objs m new = Some old"
    by (auto simp: reaches_within_iff)
  show ?thesis
  proof (cases m)
    case 0
    with m show ?thesis by (simp add: is_fast_forward_def)
  next
    case (Suc m')
    with m obtain h where h: "first_parent_walk objs m' new = Some h" "first_parent objs h = Some old"
      by (auto simp: first_parent_walk_Suc_right simp del: first_parent_walk.simps split: option.splits)
    from first_parent_parent_hit [OF h(2)] h(1) have "parent_hit objs old m' new"
      by (auto simp: parent_hit_def)
    moreover from m Suc have "m' < 1000" by simp
    ultimately show ?thesis unfolding is_fast_forward_iff by blast
  qed
qed

lemma linear_parent_hit:
  assumes "no_merge_commits objs" "parent_hit objs old n new"
  shows "first_parent_walk objs (Suc n) new = Some old"
proof -
  from assms(2) obtain h c where h: "first_parent_walk objs n new = Some h"
      "Commit_load_by_hash objs h = Some c" "old \<in> set (parent_hashes_hex c)"
    by (auto simp: parent_hit_def)
  from linear_load [OF assms(1) h(2)] h(3) have "parent_hashes_hex c = [old]"
    by (cases "parent_hashes_hex c") auto
  with h(2) have "first_parent objs h = Some old" by (simp add: first_parent_def)
  with h(1) show ?thesis by (simp add: first_parent_walk_Suc_right del: first_parent_walk.simps)
qed

lemma linear_fast_forward_iff:
  assumes "no_merge_commits objs" "old \<noteq> []"
  shows "is_fast_forward objs old new \<longleftrightarrow> reaches_within objs 1000 new old"
proof
  assume "is_fast_forward objs old new"
  with assms(2) consider "old = new" | n where "n < 1000" "parent_hit objs old n new"
    unfolding is_fast_forward_iff by blast
  then show "reaches_within objs 1000 new old"
  proof cases
    case 1
    then show ?thesis unfolding reaches_within_iff by (intro exI [of _ 0]) simp
  next
    case 2
    from linear_parent_hit [OF assms(1) 2(2)] 2(1) show ?thesis
      unfolding reaches_within_iff by (intro exI [of _ "Suc n"]) simp
  qed
next
  assume "reaches_within objs 1000 new old"
  then show "is_fast_forward objs old new" by (rule reaches_imp_fast_forward)
qed

text \<open>
  Claim C2, as the code has it. \<^verbatim>\<open>is_fast_forward(A, B)\<close> is true exactly when A is
  empty, or A is B, or A is among the parents (the first or any other) of one of the
  first 1000 commits of the first-parent walk from B. So it is true whenever the
  first-parent walk from B reaches A within 1000 steps, and in a store without merge
  commits it is true exactly then.
\<close>

theorem is_fast_forward_characterisation:
  "(is_fast_forward objs old new \<longleftrightarrow>
      old = [] \<or> old = new \<or> (\<exists>n<1000. parent_hit objs old n new))
   \<and> (reaches_within objs 1000 new old \<longrightarrow> is_fast_forward objs old new)
   \<and> (no_merge_commits objs \<and> old \<noteq> [] \<longrightarrow>
        (is_fast_forward objs old new \<longleftrightarrow> reaches_within objs 1000 new old))"
proof (intro conjI impI)
  show "is_fast_forward objs old new \<longleftrightarrow>
      old = [] \<or> old = new \<or> (\<exists>n<1000. parent_hit objs old n new)"
    by (rule is_fast_forward_iff)
next
  assume "reaches_within objs 1000 new old"
  then show "is_fast_forward objs old new" by (rule reaches_imp_fast_forward)
next
  assume "no_merge_commits objs \<and> old \<noteq> []"
  then show "is_fast_forward objs old new \<longleftrightarrow> reaches_within objs 1000 new old"
    by (simp add: linear_fast_forward_iff)
qed

text \<open>
  The theorem on the chain B, A, R: the walk from B reaches R, no commit is a merge,
  and \<^verbatim>\<open>is_fast_forward(R, B)\<close> holds.
\<close>

theorem is_fast_forward_characterisation_witness:
  "reaches_within chain_store 1000 hash_B hash_R
   \<and> (no_merge_commits chain_store \<and> hash_R \<noteq> [])
   \<and> is_fast_forward chain_store hash_R hash_B"
proof -
  have r: "reaches_within chain_store 1000 hash_B hash_R" by code_simp
  have l: "no_merge_commits chain_store \<and> hash_R \<noteq> []"
    by (simp add: no_merge_commits_def ex_defs)
  from r l is_fast_forward_characterisation [of chain_store hash_R hash_B]
  show ?thesis by blast
qed

text \<open>
  Claim C2 as stated fails on a merge commit: B has the parents P and A. The loop
  finds A among the parents of B and answers true, while the first-parent walk from
  B goes to P and ends there without meeting A.
\<close>

theorem is_fast_forward_merge_counterexample:
  "is_fast_forward merge_store hash_A hash_B \<and> \<not> reaches_within merge_store 1000 hash_B hash_A"
proof
  show "is_fast_forward merge_store hash_A hash_B"
    by (simp add: is_fast_forward_def is_fast_forward_loop.simps ex_defs)
  show "\<not> reaches_within merge_store 1000 hash_B hash_A"
    by code_simp
qed

section \<open>Properties of the common-ancestor search\<close>

lemma parent_rel_Image_Some:
  "Commit_load_by_hash objs h = Some c \<Longrightarrow> parent_rel objs `` {h} = set (parent_hashes_hex c)"
  by (auto simp: parent_rel_def)

lemma parent_rel_Image_None:
  "Commit_load_by_hash objs h = None \<Longrightarrow> parent_rel objs `` {h} = {}"
  by (auto simp: parent_rel_def)

lemma enqueue_parents_result:
  "enqueue_parents ps (v, q) = (v', q') \<Longrightarrow> v' = v \<union> set ps \<and> set q' = set q \<union> (set ps - v)"
proof (induction ps arbitrary: v q)
  case Nil
  then show ?case by simp
next
  case (Cons p ps)
  show ?case
  proof (cases "p \<in> v")
    case True
    with Cons.prems have "enqueue_parents ps (v, q) = (v', q')" by simp
    from Cons.IH [OF this] True show ?thesis by auto
  next
    case False
    with Cons.prems have "enqueue_parents ps (insert p v, q @ [p]) = (v', q')" by simp
    from Cons.IH [OF this] False show ?thesis by auto
  qed
qed

lemma rtrancl_Image_step_subset:
  assumes "cur \<in> X" and "Y \<subseteq> X \<union> r `` {cur}"
  shows "r\<^sup>* `` Y \<subseteq> r\<^sup>* `` X"
proof
  fix z assume "z \<in> r\<^sup>* `` Y"
  then obtain y where y: "y \<in> Y" "(y, z) \<in> r\<^sup>*" by auto
  from y(1) assms(2) consider "y \<in> X" | "(cur, y) \<in> r" by auto
  then show "z \<in> r\<^sup>* `` X"
  proof cases
    case 1
    with y(2) show ?thesis by auto
  next
    case 2
    from 2 y(2) have "(cur, z) \<in> r\<^sup>*" by (rule converse_rtrancl_into_rtrancl)
    with assms(1) show ?thesis by auto
  qed
qed

lemma collect_ancestors_closed:
  "anc \<union> set q = v \<Longrightarrow> parent_rel objs `` anc \<subseteq> v \<Longrightarrow>
   v \<subseteq> collect_ancestors objs q v anc
   \<and> parent_rel objs `` collect_ancestors objs q v anc \<subseteq> collect_ancestors objs q v anc
   \<and> collect_ancestors objs q v anc \<subseteq> (parent_rel objs)\<^sup>* `` v"
proof (induction objs q v anc rule: collect_ancestors.induct)
  case (1 objs v anc)
  then show ?case by (auto simp: collect_ancestors.simps)
next
  case (2 objs cur rest v anc)
  from "2.prems"(1) have cv: "cur \<in> v" by auto
  show ?case
  proof (cases "Commit_load_by_hash objs cur")
    case None
    have a: "insert cur anc \<union> set rest = v" using "2.prems"(1) by auto
    have b: "parent_rel objs `` insert cur anc \<subseteq> v"
      using "2.prems"(2) parent_rel_Image_None [OF None] by auto
    from "2.IH"(1) [OF None a b] None show ?thesis by (simp add: collect_ancestors.simps)
  next
    case (Some c)
    obtain v' q' where e: "enqueue_parents (parent_hashes_hex c) (v, rest) = (v', q')"
      by (cases "enqueue_parents (parent_hashes_hex c) (v, rest)")
    from enqueue_parents_result [OF e]
    have r: "v' = v \<union> set (parent_hashes_hex c)" "set q' = set rest \<union> (set (parent_hashes_hex c) - v)"
      by auto
    have a: "insert cur anc \<union> set q' = v'" using "2.prems"(1) r by auto
    have b: "parent_rel objs `` insert cur anc \<subseteq> v'"
      using "2.prems"(2) parent_rel_Image_Some [OF Some] r by auto
    have "v' \<subseteq> v \<union> parent_rel objs `` {cur}"
      using r parent_rel_Image_Some [OF Some] by auto
    with cv have c: "(parent_rel objs)\<^sup>* `` v' \<subseteq> (parent_rel objs)\<^sup>* `` v"
      by (rule rtrancl_Image_step_subset)
    from "2.IH"(2) [OF Some e [symmetric] a b] Some e r(1) c show ?thesis
      by (auto simp: collect_ancestors.simps)
  qed
qed

lemma collect_ancestors_eq:
  "collect_ancestors objs [h] {h} {} = ancestors_of objs h"
proof -
  let ?R = "collect_ancestors objs [h] {h} {}"
  from collect_ancestors_closed [of "{}" "[h]" "{h}" objs]
  have 1: "{h} \<subseteq> ?R" and 2: "parent_rel objs `` ?R \<subseteq> ?R" and 3: "?R \<subseteq> (parent_rel objs)\<^sup>* `` {h}"
    by auto
  from 2 have "(parent_rel objs)\<^sup>* `` ?R = ?R" by (rule Image_closed_trancl)
  with 1 have "(parent_rel objs)\<^sup>* `` {h} \<subseteq> ?R" by blast
  with 3 show ?thesis by (auto simp: ancestors_of_def)
qed

lemma first_common_Some:
  "first_common objs anc q v = Some x \<Longrightarrow> x \<in> anc \<and> x \<in> (parent_rel objs)\<^sup>* `` set q"
proof (induction objs anc q v rule: first_common.induct)
  case (1 objs anc v)
  then show ?case by (simp add: first_common.simps)
next
  case (2 objs anc cur rest v)
  show ?case
  proof (cases "cur \<in> anc")
    case True
    with "2.prems" show ?thesis by (auto simp: first_common.simps)
  next
    case False
    show ?thesis
    proof (cases "Commit_load_by_hash objs cur")
      case None
      with "2.prems" False have "first_common objs anc rest v = Some x" by (simp add: first_common.simps)
      from "2.IH"(1) [OF False None this] show ?thesis by auto
    next
      case (Some c)
      obtain v' q' where e: "enqueue_parents (parent_hashes_hex c) (v, rest) = (v', q')"
        by (cases "enqueue_parents (parent_hashes_hex c) (v, rest)")
      with "2.prems" False Some have f: "first_common objs anc q' v' = Some x" by (simp add: first_common.simps)
      from enqueue_parents_result [OF e] parent_rel_Image_Some [OF Some]
      have "set q' \<subseteq> set (cur # rest) \<union> parent_rel objs `` {cur}" by auto
      then have "(parent_rel objs)\<^sup>* `` set q' \<subseteq> (parent_rel objs)\<^sup>* `` set (cur # rest)"
        by (intro rtrancl_Image_step_subset [of cur]) auto
      with "2.IH"(2) [OF False Some e [symmetric] f] show ?thesis by auto
    qed
  qed
qed

lemma first_common_None:
  "first_common objs anc q v = None \<Longrightarrow> P \<union> set q = v \<Longrightarrow> parent_rel objs `` P \<subseteq> v \<Longrightarrow>
   P \<inter> anc = {} \<Longrightarrow> \<exists>V. v \<subseteq> V \<and> parent_rel objs `` V \<subseteq> V \<and> V \<inter> anc = {}"
proof (induction objs anc q v arbitrary: P rule: first_common.induct)
  case (1 objs anc v)
  then show ?case by (intro exI [of _ v]) auto
next
  case (2 objs anc cur rest v)
  from "2.prems"(1) have False: "cur \<notin> anc" by (auto simp: first_common.simps split: if_splits)
  show ?case
  proof (cases "Commit_load_by_hash objs cur")
    case None
    with "2.prems"(1) False have f: "first_common objs anc rest v = None" by (simp add: first_common.simps)
    have a: "insert cur P \<union> set rest = v" using "2.prems"(2) by auto
    have b: "parent_rel objs `` insert cur P \<subseteq> v"
      using "2.prems"(3) parent_rel_Image_None [OF None] by auto
    have c: "insert cur P \<inter> anc = {}" using "2.prems"(4) False by auto
    from "2.IH"(1) [OF False None f a b c] show ?thesis .
  next
    case (Some c)
    obtain v' q' where e: "enqueue_parents (parent_hashes_hex c) (v, rest) = (v', q')"
      by (cases "enqueue_parents (parent_hashes_hex c) (v, rest)")
    with "2.prems"(1) False Some have f: "first_common objs anc q' v' = None" by (simp add: first_common.simps)
    from enqueue_parents_result [OF e]
    have r: "v' = v \<union> set (parent_hashes_hex c)" "set q' = set rest \<union> (set (parent_hashes_hex c) - v)"
      by auto
    have a: "insert cur P \<union> set q' = v'" using "2.prems"(2) r by auto
    have b: "parent_rel objs `` insert cur P \<subseteq> v'"
      using "2.prems"(3) parent_rel_Image_Some [OF Some] r by auto
    have c: "insert cur P \<inter> anc = {}" using "2.prems"(4) False by auto
    from "2.IH"(2) [OF False Some e [symmetric] f a b c]
    obtain V where "v' \<subseteq> V" "parent_rel objs `` V \<subseteq> V" "V \<inter> anc = {}" by blast
    with r(1) show ?thesis by (intro exI [of _ V]) auto
  qed
qed

lemma find_common_ancestor_Some:
  assumes "find_common_ancestor objs h1 h2 = Some x"
  shows "x \<in> ancestors_of objs h1 \<inter> ancestors_of objs h2"
proof (cases "h1 = h2")
  case True
  with assms show ?thesis
    by (auto simp: find_common_ancestor_def ancestors_of_def split: if_splits)
next
  case False
  with assms have "first_common objs (ancestors_of objs h1) [h2] {h2} = Some x"
    by (auto simp: find_common_ancestor_def collect_ancestors_eq split: if_splits)
  from first_common_Some [OF this] show ?thesis by (simp add: ancestors_of_def)
qed

lemma find_common_ancestor_None:
  assumes "h1 \<noteq> []" "h2 \<noteq> []"
  shows "find_common_ancestor objs h1 h2 = None \<longleftrightarrow> ancestors_of objs h1 \<inter> ancestors_of objs h2 = {}"
proof
  assume n: "find_common_ancestor objs h1 h2 = None"
  with assms have ne: "h1 \<noteq> h2" by (auto simp: find_common_ancestor_def split: if_splits)
  with n assms have "first_common objs (ancestors_of objs h1) [h2] {h2} = None"
    by (auto simp: find_common_ancestor_def collect_ancestors_eq split: if_splits)
  from first_common_None [OF this, of "{}"]
  obtain V where V: "{h2} \<subseteq> V" "parent_rel objs `` V \<subseteq> V" "V \<inter> ancestors_of objs h1 = {}"
    by auto
  from V(2) have "(parent_rel objs)\<^sup>* `` V = V" by (rule Image_closed_trancl)
  with V(1) have "ancestors_of objs h2 \<subseteq> V" unfolding ancestors_of_def by blast
  with V(3) show "ancestors_of objs h1 \<inter> ancestors_of objs h2 = {}" by auto
next
  assume e: "ancestors_of objs h1 \<inter> ancestors_of objs h2 = {}"
  show "find_common_ancestor objs h1 h2 = None"
  proof (cases "find_common_ancestor objs h1 h2")
    case None
    then show ?thesis .
  next
    case (Some x)
    from find_common_ancestor_Some [OF this] e show ?thesis by auto
  qed
qed

lemma enqueue_parents_short:
  "length ps \<le> 1 \<Longrightarrow> enqueue_parents ps (v, []) = (v', q') \<Longrightarrow> length q' \<le> 1"
  by (cases ps) (auto split: if_splits)

lemma first_common_lowest:
  "no_merge_commits objs \<Longrightarrow> length q \<le> 1 \<Longrightarrow> first_common objs anc q v = Some y \<Longrightarrow>
   z \<in> anc \<Longrightarrow> z \<in> (parent_rel objs)\<^sup>* `` set q \<Longrightarrow> (y, z) \<in> (parent_rel objs)\<^sup>*"
proof (induction objs anc q v rule: first_common.induct)
  case (1 objs anc v)
  then show ?case by simp
next
  case (2 objs anc cur rest v)
  from "2.prems"(2) have rest: "rest = []" by simp
  show ?case
  proof (cases "cur \<in> anc")
    case True
    with "2.prems" rest show ?thesis by (auto simp: first_common.simps)
  next
    case False
    show ?thesis
    proof (cases "Commit_load_by_hash objs cur")
      case None
      with "2.prems"(3) False rest show ?thesis by (simp add: first_common.simps)
    next
      case (Some c)
      obtain v' q' where e: "enqueue_parents (parent_hashes_hex c) (v, rest) = (v', q')"
        by (cases "enqueue_parents (parent_hashes_hex c) (v, rest)")
      with "2.prems"(3) False Some have f: "first_common objs anc q' v' = Some y" by (simp add: first_common.simps)
      have l: "length q' \<le> 1"
        using enqueue_parents_short [OF linear_load [OF "2.prems"(1) Some]] e rest by simp
      from f have qne: "q' \<noteq> []" by (auto simp: first_common.simps)
      from enqueue_parents_result [OF e] rest
      have q': "set q' = set (parent_hashes_hex c) - v" by simp
      have ps: "set (parent_hashes_hex c) = set q'"
      proof (cases "parent_hashes_hex c")
        case Nil
        with q' qne show ?thesis by simp
      next
        case (Cons p ps')
        with linear_load [OF "2.prems"(1) Some] have ps': "ps' = []" by simp
        from qne have "set q' \<noteq> {}" by simp
        with q' Cons ps' have "p \<notin> v" by auto
        with q' Cons ps' show ?thesis by auto
      qed
      from "2.prems"(5) rest have "(cur, z) \<in> (parent_rel objs)\<^sup>*" by simp
      moreover from "2.prems"(4) False have "z \<noteq> cur" by auto
      ultimately obtain p where "(cur, p) \<in> parent_rel objs" "(p, z) \<in> (parent_rel objs)\<^sup>*"
        by (auto elim: converse_rtranclE)
      with parent_rel_Image_Some [OF Some] ps have "z \<in> (parent_rel objs)\<^sup>* `` set q'" by auto
      from "2.IH"(2) [OF False Some e [symmetric] "2.prems"(1) l f "2.prems"(4) this]
      show ?thesis .
    qed
  qed
qed

lemma find_common_ancestor_lowest:
  assumes "no_merge_commits objs" "find_common_ancestor objs h1 h2 = Some y"
    "z \<in> ancestors_of objs h1 \<inter> ancestors_of objs h2"
  shows "(y, z) \<in> (parent_rel objs)\<^sup>*"
proof (cases "h1 = h2")
  case True
  with assms show ?thesis by (auto simp: find_common_ancestor_def ancestors_of_def split: if_splits)
next
  case False
  with assms(2) have "first_common objs (ancestors_of objs h1) [h2] {h2} = Some y"
    by (auto simp: find_common_ancestor_def collect_ancestors_eq split: if_splits)
  from first_common_lowest [OF assms(1) _ this, of z] assms(3) show ?thesis
    by (simp add: ancestors_of_def)
qed

lemma find_common_ancestor_sym_linear:
  assumes "no_merge_commits objs" "acyclic (parent_rel objs)" "h1 \<noteq> []" "h2 \<noteq> []"
  shows "find_common_ancestor objs h1 h2 = find_common_ancestor objs h2 h1"
proof (cases "find_common_ancestor objs h1 h2")
  case None
  with find_common_ancestor_None [OF assms(3,4), of objs] find_common_ancestor_None [OF assms(4,3), of objs]
  show ?thesis by (simp add: Int_commute)
next
  case (Some x)
  with find_common_ancestor_None [OF assms(3,4), of objs] find_common_ancestor_None [OF assms(4,3), of objs]
  obtain y where y: "find_common_ancestor objs h2 h1 = Some y"
    by (cases "find_common_ancestor objs h2 h1") (auto simp: Int_commute)
  from find_common_ancestor_Some [OF Some] find_common_ancestor_Some [OF y]
  have m: "x \<in> ancestors_of objs h1 \<inter> ancestors_of objs h2" "y \<in> ancestors_of objs h1 \<inter> ancestors_of objs h2"
    by auto
  from find_common_ancestor_lowest [OF assms(1) Some m(2)]
  have xy: "(x, y) \<in> (parent_rel objs)\<^sup>*" .
  from m(1) have "x \<in> ancestors_of objs h2 \<inter> ancestors_of objs h1" by auto
  from find_common_ancestor_lowest [OF assms(1) y this]
  have yx: "(y, x) \<in> (parent_rel objs)\<^sup>*" .
  have "x = y"
  proof (rule ccontr)
    assume "x \<noteq> y"
    with xy have "(x, y) \<in> (parent_rel objs)\<^sup>+" by (simp add: rtrancl_eq_or_trancl)
    from this yx have "(x, x) \<in> (parent_rel objs)\<^sup>+" by (rule trancl_rtrancl_trancl)
    with assms(2) show False by (simp add: acyclic_def)
  qed
  with Some y show ?thesis by simp
qed


text \<open>
  Claim C5, as the code has it. For non-empty hashes the two orders of the arguments
  agree on whether there is a result; every result is an ancestor (or the commit
  itself) of both arguments; and in a store without merge commits and without
  cycles the two results are equal.
\<close>

theorem find_common_ancestor_agreement:
  assumes "h1 \<noteq> []" and "h2 \<noteq> []"
  shows "(find_common_ancestor objs h1 h2 = None \<longleftrightarrow> find_common_ancestor objs h2 h1 = None)
    \<and> (\<forall>x. find_common_ancestor objs h1 h2 = Some x \<longrightarrow>
           x \<in> ancestors_of objs h1 \<inter> ancestors_of objs h2)
    \<and> (no_merge_commits objs \<and> acyclic (parent_rel objs) \<longrightarrow>
           find_common_ancestor objs h1 h2 = find_common_ancestor objs h2 h1)"
proof (intro conjI allI impI)
  show "find_common_ancestor objs h1 h2 = None \<longleftrightarrow> find_common_ancestor objs h2 h1 = None"
    using find_common_ancestor_None [OF assms, of objs] find_common_ancestor_None [OF assms(2,1), of objs]
    by (simp add: Int_commute)
next
  fix x assume "find_common_ancestor objs h1 h2 = Some x"
  then show "x \<in> ancestors_of objs h1 \<inter> ancestors_of objs h2"
    by (rule find_common_ancestor_Some)
next
  assume "no_merge_commits objs \<and> acyclic (parent_rel objs)"
  then show "find_common_ancestor objs h1 h2 = find_common_ancestor objs h2 h1"
    using assms by (simp add: find_common_ancestor_sym_linear)
qed

lemma parent_rel_fork_store: "parent_rel fork_store = {(hash_A, hash_R), (hash_B, hash_R)}"
  by (auto simp: parent_rel_def ex_defs split: if_splits)

text \<open>
  The theorem on the fork A, B over R: there are no merge commits and no cycles, and
  both orders give the same answer.
\<close>

theorem find_common_ancestor_agreement_witness:
  "hash_A \<noteq> [] \<and> hash_B \<noteq> []
   \<and> (no_merge_commits fork_store \<and> acyclic (parent_rel fork_store))
   \<and> find_common_ancestor fork_store hash_A hash_B = find_common_ancestor fork_store hash_B hash_A"
proof -
  have a: "hash_A \<noteq> []" and b: "hash_B \<noteq> []" by (simp_all add: ex_defs)
  have "acyclic (parent_rel fork_store)"
    unfolding parent_rel_fork_store
    by (rule acyclicI_order [where f = "\<lambda>h. if h = hash_R then (0::nat) else 1"])
       (auto simp: ex_defs)
  moreover have "no_merge_commits fork_store"
    by (simp add: no_merge_commits_def ex_defs)
  ultimately have l: "no_merge_commits fork_store \<and> acyclic (parent_rel fork_store)"
    by simp
  from a b l find_common_ancestor_agreement [OF a b, of fork_store]
  show ?thesis by blast
qed

text \<open>
  Claim C5 as stated fails on a criss-cross merge: A has the parents X, Y and B has
  the parents Y, X. The search from B meets Y first, the search from A meets X first.
\<close>

theorem find_common_ancestor_crisscross_counterexample:
  "find_common_ancestor crisscross_store hash_A hash_B = Some hash_Y
   \<and> find_common_ancestor crisscross_store hash_B hash_A = Some hash_X
   \<and> hash_X \<noteq> hash_Y"
  by (simp add: find_common_ancestor_def collect_ancestors.simps first_common.simps ex_defs)

section \<open>Properties of serializing and deserializing objects\<close>

lemma isdigit_digit_char: "d < 10 \<Longrightarrow> isdigit (digit_char d)"
  by (simp add: isdigit_def digit_char_def less_eq_char_def)

lemma digit_char_val: "d < 10 \<Longrightarrow> (of_char (digit_char d) :: int) - 48 = int d"
proof -
  assume d: "d < 10"
  have "(of_char (digit_char d) :: int) = int (of_char (digit_char d))"
    by (simp only: of_nat_of_char)
  also have "\<dots> = int (48 + d)" using d by (simp add: digit_char_def)
  finally show ?thesis by simp
qed

lemma string_of_nat_digits: "list_all isdigit (string_of_nat n)"
  by (induction n rule: string_of_nat.induct) (subst string_of_nat.simps, simp add: isdigit_digit_char)

lemma string_of_nat_nonempty: "string_of_nat n \<noteq> []"
  by (subst string_of_nat.simps) simp

lemma int_of_digits_snoc: "int_of_digits (ds @ [c]) = 10 * int_of_digits ds + (of_char c - 48)"
  by (simp add: int_of_digits_def)

lemma int_of_digits_string_of_nat: "int_of_digits (string_of_nat n) = int n"
proof (induction n rule: string_of_nat.induct)
  case (1 n)
  show ?case
  proof (cases "n < 10")
    case True
    then show ?thesis
      by (subst string_of_nat.simps) (simp add: int_of_digits_def digit_char_val)
  next
    case False
    with 1 have "int_of_digits (string_of_nat (n div 10)) = int (n div 10)" by simp
    with False show ?thesis
      by (subst string_of_nat.simps) (simp add: int_of_digits_snoc digit_char_val zdiv_int zmod_int)
  qed
qed


lemma takeWhile_append_stop:
  "\<forall>x \<in> set xs. P x \<Longrightarrow> ys = [] \<or> \<not> P (hd ys) \<Longrightarrow> takeWhile P (xs @ ys) = xs"
  by (induction xs) (auto intro: takeWhile_eq_Nil_iff [THEN iffD2] simp: takeWhile_eq_Nil_iff)

lemma dropWhile_append_stop:
  "\<forall>x \<in> set xs. P x \<Longrightarrow> ys = [] \<or> \<not> P (hd ys) \<Longrightarrow> dropWhile P (xs @ ys) = ys"
  by (induction xs) (auto simp: dropWhile_eq_self_iff)

lemma isdigit_not_space: "isdigit c \<Longrightarrow> \<not> isspace c \<and> c \<noteq> CHR ''-'' \<and> c \<noteq> CHR ''+''"
  by (auto simp: isdigit_def isspace_def less_eq_char_def)

lemma scan_integer_digits:
  assumes "list_all isdigit ds" "ds \<noteq> []" "rest = [] \<or> \<not> isdigit (hd rest)"
  shows "scan_integer (ds @ rest) = Some (False, int_of_digits ds, rest)"
proof -
  from assms obtain d ds' where ds: "ds = d # ds'" "isdigit d" by (cases ds) auto
  with isdigit_not_space [of d] have h: "\<not> isspace d" "d \<noteq> CHR ''-''" "d \<noteq> CHR ''+''" by auto
  have a: "\<forall>x \<in> set ds. isdigit x" using assms(1) by (simp add: list_all_iff)
  from h ds show ?thesis
    using takeWhile_append_stop [OF a assms(3)] dropWhile_append_stop [OF a assms(3)]
    by (simp add: scan_integer_def)
qed

lemma scan_integer_string_of_nat:
  assumes "rest = [] \<or> \<not> isdigit (hd rest)"
  shows "scan_integer (string_of_nat n @ rest) = Some (False, int n, rest)"
  using scan_integer_digits [OF string_of_nat_digits string_of_nat_nonempty assms, of n]
  by (simp add: int_of_digits_string_of_nat)

lemma scan_integer_minus:
  assumes "list_all isdigit ds" "ds \<noteq> []" "rest = [] \<or> \<not> isdigit (hd rest)"
  shows "scan_integer (CHR ''-'' # ds @ rest) = Some (True, int_of_digits ds, rest)"
proof -
  have a: "\<forall>x \<in> set ds. isdigit x" using assms(1) by (simp add: list_all_iff)
  show ?thesis
    using takeWhile_append_stop [OF a assms(3)] dropWhile_append_stop [OF a assms(3)] assms(2)
    by (simp add: scan_integer_def isspace_def)
qed

lemma extract_long_long_string_of_int:
  assumes "- (2 ^ 63) \<le> i" "i < 2 ^ 63" "rest = [] \<or> \<not> isdigit (hd rest)"
  shows "extract_long_long (string_of_int i @ rest) = Some (i, rest)"
proof (cases "i < 0")
  case True
  have "scan_integer (CHR ''-'' # string_of_nat (nat (- i)) @ rest)
          = Some (True, int (nat (- i)), rest)"
    using scan_integer_minus [OF string_of_nat_digits string_of_nat_nonempty assms(3), of "nat (- i)"]
    by (simp add: int_of_digits_string_of_nat)
  with True assms show ?thesis by (simp add: extract_long_long_def string_of_int_def)
next
  case False
  with scan_integer_string_of_nat [OF assms(3), of "nat i"] assms show ?thesis
    by (simp add: extract_long_long_def string_of_int_def)
qed

lemma scan_integer_skip_space: "scan_integer (SP # s) = scan_integer s"
  by (simp add: scan_integer_def isspace_def)

lemma extract_long_long_skip_space: "extract_long_long (SP # s) = extract_long_long s"
  by (simp add: extract_long_long_def scan_integer_skip_space)

lemma stoll_string_of_nat: "int n < 2 ^ 63 \<Longrightarrow> stoll (string_of_nat n) = Some (int n)"
  using extract_long_long_string_of_int [of "int n" "[]"]
  by (simp add: stoll_def string_of_int_def)

lemma isdigit_not_NUL: "isdigit c \<Longrightarrow> c \<noteq> NUL"
  by (auto simp: isdigit_def less_eq_char_def)

lemma read_and_parse_header:
  assumes "ty \<noteq> []" "SP \<notin> set ty" "length data < 2 ^ 63"
  shows "read_and_parse_object_file (ty @ [SP] @ string_of_nat (length data) @ [NUL] @ data)
           = Some (ty, length data, data)"
proof -
  have t: "takeWhile (\<lambda>c. c \<noteq> SP) (ty @ SP # string_of_nat (length data) @ NUL # data) = ty"
    "dropWhile (\<lambda>c. c \<noteq> SP) (ty @ SP # string_of_nat (length data) @ NUL # data)
       = SP # string_of_nat (length data) @ NUL # data"
  proof -
    have a: "\<forall>x \<in> set ty. x \<noteq> SP" using assms(2) by auto
    show "takeWhile (\<lambda>c. c \<noteq> SP) (ty @ SP # string_of_nat (length data) @ NUL # data) = ty"
      by (rule takeWhile_append_stop [OF a]) simp
    show "dropWhile (\<lambda>c. c \<noteq> SP) (ty @ SP # string_of_nat (length data) @ NUL # data)
       = SP # string_of_nat (length data) @ NUL # data"
      by (rule dropWhile_append_stop [OF a]) simp
  qed
  have d: "\<forall>c \<in> set (string_of_nat (length data)). c \<noteq> NUL"
    using string_of_nat_digits [of "length data"] isdigit_not_NUL by (auto simp: list_all_iff)
  have n: "takeWhile (\<lambda>c. c \<noteq> NUL) (string_of_nat (length data) @ NUL # data) = string_of_nat (length data)"
    "dropWhile (\<lambda>c. c \<noteq> NUL) (string_of_nat (length data) @ NUL # data) = NUL # data"
  proof -
    show "takeWhile (\<lambda>c. c \<noteq> NUL) (string_of_nat (length data) @ NUL # data) = string_of_nat (length data)"
      by (rule takeWhile_append_stop [OF d]) simp
    show "dropWhile (\<lambda>c. c \<noteq> NUL) (string_of_nat (length data) @ NUL # data) = NUL # data"
      by (rule dropWhile_append_stop [OF d]) simp
  qed
  have s: "stoll (string_of_nat (length data)) = Some (int (length data))"
    using assms(3) by (intro stoll_string_of_nat) (simp add: of_nat_less_iff [of _ "2 ^ 63", simplified])
  from assms(1) t n s string_of_nat_nonempty [of "length data"] show ?thesis
    by (simp add: read_and_parse_object_file_def)
qed

lemma to_time_t_from_time_t:
  "ts mod ticks_per_second = 0 \<Longrightarrow> from_time_t (to_time_t ts) = ts"
  by (auto simp: from_time_t_def to_time_t_def ticks_per_second_def zmod_zminus1_eq_if split: if_splits)

lemma to_time_t_range:
  "- (2 ^ 63) \<le> ts \<Longrightarrow> ts < 2 ^ 63 \<Longrightarrow> - (2 ^ 63) \<le> to_time_t ts \<and> to_time_t ts < 2 ^ 63"
  by (auto simp: to_time_t_def ticks_per_second_def)

lemma string_of_int_no: 
  "c \<in> set (string_of_int i) \<Longrightarrow> c = CHR ''-'' \<or> isdigit c"
  using string_of_nat_digits by (auto simp: string_of_int_def list_all_iff split: if_splits)

lemma drop_length_Suc: "drop (length xs + 1) (xs @ c # ys) = ys"
  by simp

lemma take_drop_middle: "take (length ys) (drop (length xs + 1) (xs @ c # ys @ zs)) = ys"
  by simp

lemma find_char_append:
  "c \<notin> set xs \<Longrightarrow> find_char c (xs @ c # ys) = Some (length xs)"
proof -
  assume a: "c \<notin> set xs"
  then have "\<forall>x \<in> set xs. x \<noteq> c" by auto
  then have "takeWhile (\<lambda>x. x \<noteq> c) (xs @ c # ys) = xs"
    by (rule takeWhile_append_stop) simp
  then show ?thesis by (simp add: find_char_def)
qed

lemma isspace_SP: "isspace SP"
  by (simp add: isspace_def)

lemma extract_string_token:
  assumes "tz \<noteq> []" "\<not> list_ex isspace tz"
  shows "extract_string (SP # tz) = Some (tz, [])"
proof -
  from assms obtain t tz' where t: "tz = t # tz'" "\<not> isspace t" by (cases tz) auto
  have a: "\<forall>x \<in> set tz'. \<not> isspace x" using assms(2) t by (simp add: list_ex_iff)
  from t a show ?thesis by (simp add: extract_string_def isspace_SP)
qed

lemma parse_format_person:
  assumes "wf_person p"
  shows "parse_from_line_content (format_for_commit p) = Some p"
proof -
  let ?n = "person_name p" and ?e = "person_email p" and ?tz = "timezone_offset p"
  let ?S = "string_of_int (to_time_t (timestamp p))"
  let ?tail = "SP # ?S @ SP # ?tz"
  have line: "format_for_commit p = (?n @ [SP]) @ CHR ''<'' # ?e @ CHR ''>'' # ?tail"
    by (simp add: format_for_commit_def)
  have line2: "format_for_commit p = (?n @ SP # CHR ''<'' # ?e) @ CHR ''>'' # ?tail"
    by (simp add: format_for_commit_def)
  from assms have w: "?n \<noteq> []" "CHR ''<'' \<notin> set ?n" "CHR ''>'' \<notin> set ?n" "CHR ''>'' \<notin> set ?e"
      "?tz \<noteq> []" "\<not> list_ex isspace ?tz" "timestamp p mod ticks_per_second = 0"
      "- (2 ^ 63) \<le> timestamp p" "timestamp p < 2 ^ 63"
    by (simp_all add: wf_person_def)
  have st: "find_char (CHR ''<'') (format_for_commit p) = Some (length ?n + 1)"
    unfolding line using w(2) by (subst find_char_append) simp_all
  have en: "find_char (CHR ''>'') (format_for_commit p) = Some (length ?n + 2 + length ?e)"
    unfolding line2 using w(3,4) by (subst find_char_append) simp_all
  have name: "take (length ?n + 1) (format_for_commit p) = ?n @ [SP]"
    unfolding line by simp
  have "take (length ?e) (drop (length (?n @ [SP]) + 1) ((?n @ [SP]) @ CHR ''<'' # ?e @ CHR ''>'' # ?tail)) = ?e"
    by (rule take_drop_middle)
  then have email: "take (length ?n + 2 + length ?e - (length ?n + 1) - 1)
                 (drop (length ?n + 1 + 1) (format_for_commit p)) = ?e"
    unfolding line by simp
  have "drop (length (?n @ SP # CHR ''<'' # ?e) + 1) ((?n @ SP # CHR ''<'' # ?e) @ CHR ''>'' # ?tail) = ?tail"
    by (rule drop_length_Suc)
  then have rem: "drop (length ?n + 2 + length ?e + 1) (format_for_commit p) = ?tail"
    unfolding line2 by simp
  have ell: "extract_long_long ?tail = Some (to_time_t (timestamp p), SP # ?tz)"
    using extract_long_long_string_of_int [of "to_time_t (timestamp p)" "SP # ?tz"]
      to_time_t_range [OF w(8,9)]
    by (simp add: extract_long_long_skip_space isdigit_def less_eq_char_def)
  have tz: "extract_string (SP # ?tz) = Some (?tz, [])"
    using w(5,6) by (rule extract_string_token)
  show ?thesis
    unfolding parse_from_line_content_def st en
    using name email rem ell tz w(1,5) to_time_t_from_time_t [OF w(7)]
    by simp
qed

lemma getlines_line:
  assumes "LF \<notin> set l"
  shows "getlines (l @ LF # rest) = l # getlines rest"
proof -
  have a: "\<forall>x \<in> set l. x \<noteq> LF" using assms by auto
  have "takeWhile (\<lambda>c. c \<noteq> LF) (l @ LF # rest) = l" "dropWhile (\<lambda>c. c \<noteq> LF) (l @ LF # rest) = LF # rest"
    using a by (simp_all add: takeWhile_append_stop dropWhile_append_stop)
  then show ?thesis by (subst getlines.simps) simp
qed

lemma getlines_Nil: "getlines [] = []"
  by (subst getlines.simps) simp

lemma getlines_nonempty: "s \<noteq> [] \<Longrightarrow> getlines s \<noteq> []"
  by (subst getlines.simps) simp

lemma join_getlines:
  "s \<noteq> [] \<Longrightarrow> last s \<noteq> LF \<Longrightarrow> join_lines (getlines s) = s"
proof (induction s rule: getlines.induct)
  case (1 s)
  show ?case
  proof (cases "LF \<in> set s")
    case False
    then have a: "\<forall>x \<in> set s. x \<noteq> LF" by auto
    then have tw: "takeWhile (\<lambda>c. c \<noteq> LF) s = s" and dw: "dropWhile (\<lambda>c. c \<noteq> LF) s = []"
      by simp_all
    show ?thesis
      unfolding getlines.simps [of s] tw dw using "1.prems" by (simp add: getlines_Nil)
  next
    case True
    then obtain l rest where s: "s = l @ LF # rest" "LF \<notin> set l"
      by (meson split_list_first)
    with "1.prems" have rest: "rest \<noteq> []" "last rest \<noteq> LF" by (auto split: if_splits)
    have a: "\<forall>x \<in> set l. x \<noteq> LF" using s(2) by auto
    have d: "dropWhile (\<lambda>c. c \<noteq> LF) s = LF # rest"
      unfolding s(1) using a by (rule dropWhile_append_stop) simp
    from "1.IH" [OF "1.prems"(1)] d rest have ih: "join_lines (getlines rest) = rest" by simp
    from getlines_nonempty [OF rest(1)] obtain x xs where x: "getlines rest = x # xs"
      by (cases "getlines rest") auto
    show ?thesis
      unfolding s(1) getlines_line [OF s(2)] using ih x by simp
  qed
qed

lemma deserialize_lines_message:
  "deserialize_lines ls False c msgs = Some (c, msgs @ ls)"
  by (induction ls arbitrary: msgs) auto

lemma find_char_SP_tree: "find_char SP (''tree '' @ v) = Some 4"
  by (simp add: find_char_def)

lemma find_char_SP_parent: "find_char SP (''parent '' @ v) = Some 6"
  by (simp add: find_char_def)

lemma find_char_SP_author: "find_char SP (''author '' @ v) = Some 6"
  by (simp add: find_char_def)

lemma find_char_SP_committer: "find_char SP (''committer '' @ v) = Some 9"
  by (simp add: find_char_def)

lemma deserialize_lines_tree:
  "tree_hash_hex c = [] \<Longrightarrow> length v = 40 \<Longrightarrow>
   deserialize_lines ((''tree '' @ v) # rest) True c msgs
     = deserialize_lines rest True (c\<lparr>tree_hash_hex := v\<rparr>) msgs"
  using find_char_SP_tree [of v] by simp

lemma deserialize_lines_parents:
  "list_all wf_hash ps \<Longrightarrow>
   deserialize_lines (map (\<lambda>p. ''parent '' @ p) ps @ rest) True c msgs
     = deserialize_lines rest True (c\<lparr>parent_hashes_hex := parent_hashes_hex c @ ps\<rparr>) msgs"
proof (induction ps arbitrary: c)
  case Nil
  then show ?case by simp
next
  case (Cons p ps)
  then have wp: "wf_hash p" and ps: "list_all wf_hash ps" by simp_all
  from wp have p: "length p = 40" by (simp add: wf_hash_def)
  from Cons.IH [OF ps] p find_char_SP_parent [of p] show ?case by simp
qed

lemma deserialize_lines_author:
  "parse_from_line_content v = Some p \<Longrightarrow>
   deserialize_lines ((''author '' @ v) # rest) True c msgs
     = deserialize_lines rest True (c\<lparr>author := p\<rparr>) msgs"
  using find_char_SP_author [of v] by simp

lemma deserialize_lines_committer:
  "parse_from_line_content v = Some p \<Longrightarrow>
   deserialize_lines ((''committer '' @ v) # rest) True c msgs
     = deserialize_lines rest True (c\<lparr>committer := p\<rparr>) msgs"
  using find_char_SP_committer [of v] by simp

lemma format_no_LF: "wf_person p \<Longrightarrow> LF \<notin> set (format_for_commit p)"
proof -
  assume w: "wf_person p"
  have "LF \<notin> set (string_of_int (to_time_t (timestamp p)))"
    using string_of_int_no [of LF] by (auto simp: isdigit_def less_eq_char_def)
  moreover have "LF \<notin> set (timezone_offset p)"
    using w by (auto simp: wf_person_def list_ex_iff isspace_def)
  ultimately show ?thesis using w by (simp add: format_for_commit_def wf_person_def)
qed

lemma getlines_parents:
  "list_all wf_hash ps \<Longrightarrow>
   getlines (concat (map (\<lambda>p. ''parent '' @ p @ [LF]) ps) @ rest)
     = map (\<lambda>p. ''parent '' @ p) ps @ getlines rest"
proof (induction ps)
  case Nil
  then show ?case by simp
next
  case (Cons p ps)
  then have wp: "wf_hash p" and ps: "list_all wf_hash ps" by simp_all
  from wp have p: "LF \<notin> set (''parent '' @ p)" by (simp add: wf_hash_def)
  from getlines_line [OF p] Cons.IH [OF ps] show ?case by simp
qed

lemma getlines_Commit_content:
  assumes "wf_commit c"
  shows "getlines (Commit_content c) =
     (''tree '' @ tree_hash_hex c) # (map (\<lambda>p. ''parent '' @ p) (parent_hashes_hex c)
       @ ((''author '' @ format_for_commit (author c))
          # (''committer '' @ format_for_commit (committer c)) # [] # getlines (message c)))"
proof -
  from assms have ps: "list_all wf_hash (parent_hashes_hex c)" and wt: "wf_hash (tree_hash_hex c)"
    and wa: "wf_person (author c)" and wc: "wf_person (committer c)"
    by (simp_all add: wf_commit_def)
  from wt have t: "LF \<notin> set (''tree '' @ tree_hash_hex c)" by (simp add: wf_hash_def)
  from format_no_LF [OF wa] have a: "LF \<notin> set (''author '' @ format_for_commit (author c))" by simp
  from format_no_LF [OF wc] have cm: "LF \<notin> set (''committer '' @ format_for_commit (committer c))" by simp
  have e: "LF \<notin> set []" by simp
  let ?m = "message c"
  let ?r4 = "LF # ?m"
  let ?r3 = "(''committer '' @ format_for_commit (committer c)) @ LF # ?r4"
  let ?r2 = "(''author '' @ format_for_commit (author c)) @ LF # ?r3"
  let ?r1 = "concat (map (\<lambda>p. ''parent '' @ p @ [LF]) (parent_hashes_hex c)) @ ?r2"
  have c0: "Commit_content c = (''tree '' @ tree_hash_hex c) @ LF # ?r1"
    by (simp add: Commit_content_def)
  have g1: "getlines ((''tree '' @ tree_hash_hex c) @ LF # ?r1) = (''tree '' @ tree_hash_hex c) # getlines ?r1"
    by (rule getlines_line [OF t])
  have g2: "getlines ?r1 = map (\<lambda>p. ''parent '' @ p) (parent_hashes_hex c) @ getlines ?r2"
    by (rule getlines_parents [OF ps])
  have g3: "getlines ?r2 = (''author '' @ format_for_commit (author c)) # getlines ?r3"
    by (rule getlines_line [OF a])
  have g4: "getlines ?r3 = (''committer '' @ format_for_commit (committer c)) # getlines ?r4"
    by (rule getlines_line [OF cm])
  have g5: "getlines ?r4 = [] # getlines ?m"
    using getlines_line [OF e, of ?m] by simp
  show ?thesis
    by (simp only: c0 g1 g2 g3 g4 g5)
qed

lemma deserialize_lines_blank:
  "deserialize_lines ([] # rest) True c msgs = deserialize_lines rest False c msgs"
  by simp

lemma Commit_roundtrip:
  assumes "wf_commit c"
  shows "Commit_deserialize (Commit_content c) = Some c"
proof -
  from assms have wt: "wf_hash (tree_hash_hex c)" by (simp add: wf_commit_def)
  from assms wt have w: "length (tree_hash_hex c) = 40" "list_all wf_hash (parent_hashes_hex c)"
      "wf_person (author c)" "wf_person (committer c)" "message c = [] \<or> last (message c) \<noteq> LF"
    by (simp_all add: wf_commit_def) (simp add: wf_hash_def)
  let ?c1 = "default_commit\<lparr>tree_hash_hex := tree_hash_hex c\<rparr>"
  let ?c2 = "?c1\<lparr>parent_hashes_hex := parent_hashes_hex ?c1 @ parent_hashes_hex c\<rparr>"
  let ?c3 = "?c2\<lparr>author := author c\<rparr>"
  let ?c4 = "?c3\<lparr>committer := committer c\<rparr>"
  let ?A = "''author '' @ format_for_commit (author c)"
  let ?C = "''committer '' @ format_for_commit (committer c)"
  let ?M = "getlines (message c)"
  have "deserialize_lines (getlines (Commit_content c)) True default_commit []
      = deserialize_lines (map (\<lambda>p. ''parent '' @ p) (parent_hashes_hex c) @ (?A # ?C # [] # ?M))
          True ?c1 []"
    unfolding getlines_Commit_content [OF assms]
    by (rule deserialize_lines_tree) (simp_all add: default_commit_def w(1))
  also have "\<dots> = deserialize_lines (?A # ?C # [] # ?M) True ?c2 []"
    by (rule deserialize_lines_parents [OF w(2)])
  also have "\<dots> = deserialize_lines (?C # [] # ?M) True ?c3 []"
    by (rule deserialize_lines_author [OF parse_format_person [OF w(3)]])
  also have "\<dots> = deserialize_lines ([] # ?M) True ?c4 []"
    by (rule deserialize_lines_committer [OF parse_format_person [OF w(4)]])
  also have "\<dots> = deserialize_lines ?M False ?c4 []"
    by (rule deserialize_lines_blank)
  also have "\<dots> = Some (?c4, [] @ ?M)"
    by (rule deserialize_lines_message)
  finally have l: "deserialize_lines (getlines (Commit_content c)) True default_commit []
      = Some (?c4, ?M)" by simp
  have n: "person_name (author c) \<noteq> []" "person_name (committer c) \<noteq> []" "tree_hash_hex c \<noteq> []"
    using w by (auto simp: wf_person_def)
  show ?thesis
  proof (cases "message c = []")
    case True
    with n show ?thesis
      unfolding Commit_deserialize_def l by (simp add: getlines_Nil default_commit_def)
  next
    case False
    with w(5) have "join_lines (getlines (message c)) = message c" by (simp add: join_getlines)
    with n False getlines_nonempty [OF False] show ?thesis
      unfolding Commit_deserialize_def l by (simp add: default_commit_def)
  qed
qed

lemma Tree_deserialize_from_entries:
  "list_all wf_entry es \<Longrightarrow>
   Tree_deserialize_from (concat (map TreeEntry_serialize es)) acc = Some (acc @ es)"
proof (induction es arbitrary: acc)
  case Nil
  then show ?case by (subst Tree_deserialize_from.simps) simp
next
  case (Cons e es)
  then have we: "wf_entry e" and es: "list_all wf_entry es" by simp_all
  from we have e: "SP \<notin> set (entry_mode e)" "NUL \<notin> set (entry_name e)" "length (entry_sha1_hash_hex e) = 40"
    by (simp_all add: wf_entry_def)
  let ?rest = "concat (map TreeEntry_serialize es)"
  let ?raw = "entry_mode e @ SP # entry_name e @ NUL # entry_sha1_hash_hex e @ ?rest"
  have raw: "concat (map TreeEntry_serialize (e # es)) = ?raw"
    by (simp add: TreeEntry_serialize_def)
  have a: "\<forall>x \<in> set (entry_mode e). x \<noteq> SP" using e(1) by auto
  have b: "\<forall>x \<in> set (entry_name e). x \<noteq> NUL" using e(2) by auto
  have m: "takeWhile (\<lambda>c. c \<noteq> SP) ?raw = entry_mode e"
    "dropWhile (\<lambda>c. c \<noteq> SP) ?raw = SP # entry_name e @ NUL # entry_sha1_hash_hex e @ ?rest"
    using a by (simp_all add: takeWhile_append_stop dropWhile_append_stop)
  have n: "takeWhile (\<lambda>c. c \<noteq> NUL) (entry_name e @ NUL # entry_sha1_hash_hex e @ ?rest) = entry_name e"
    "dropWhile (\<lambda>c. c \<noteq> NUL) (entry_name e @ NUL # entry_sha1_hash_hex e @ ?rest)
       = NUL # entry_sha1_hash_hex e @ ?rest"
    using b by (simp_all add: takeWhile_append_stop dropWhile_append_stop)
  show ?case
    unfolding raw
    by (subst Tree_deserialize_from.simps) (simp add: m n e(3) Cons.IH [OF es])
qed

lemma Tree_roundtrip:
  "list_all wf_entry (entries t) \<Longrightarrow> Tree_deserialize (Tree_content t) = Some t"
  by (simp add: Tree_deserialize_def Tree_content_def Tree_deserialize_from_entries)

lemma from_to_time_t_mod: "from_time_t (to_time_t ts) mod ticks_per_second = 0"
  by (simp add: from_time_t_def)

lemma from_to_time_t_range:
  "- (2 ^ 63) \<le> ts \<Longrightarrow> ts < 2 ^ 63 \<Longrightarrow>
     - (2 ^ 63) \<le> from_time_t (to_time_t ts) \<and> from_time_t (to_time_t ts) < 2 ^ 63"
proof -
  assume a: "- (2 ^ 63) \<le> ts" "ts < 2 ^ 63"
  have "0 \<le> ts \<Longrightarrow> 0 \<le> from_time_t (to_time_t ts) \<and> from_time_t (to_time_t ts) \<le> ts"
    by (simp add: from_time_t_def to_time_t_def ticks_per_second_def)
  moreover have "ts < 0 \<Longrightarrow> ts \<le> from_time_t (to_time_t ts) \<and> from_time_t (to_time_t ts) \<le> 0"
  proof -
    assume n: "ts < 0"
    have "(- ts) div 1000000000 * 1000000000 \<le> - ts" by simp
    moreover have "0 \<le> (- ts) div 1000000000" using n by simp
    ultimately show ?thesis using n
      by (simp add: from_time_t_def to_time_t_def ticks_per_second_def)
  qed
  ultimately show ?thesis using a by (cases "0 \<le> ts") auto
qed

lemma to_from_to_time_t: "to_time_t (from_time_t (to_time_t ts)) = to_time_t ts"
  by (simp add: from_time_t_def to_time_t_def ticks_per_second_def)

lemma whole_seconds_id:
  "timestamp p mod ticks_per_second = 0 \<Longrightarrow> whole_seconds p = p"
  by (simp add: whole_seconds_def to_time_t_from_time_t)

lemma wf_person_whole_seconds: "person_ok p \<Longrightarrow> wf_person (whole_seconds p)"
  using from_to_time_t_range [of "timestamp p"]
  by (simp add: person_ok_def wf_person_def whole_seconds_def from_to_time_t_mod)

lemma format_whole_seconds: "format_for_commit (whole_seconds p) = format_for_commit p"
  by (simp add: format_for_commit_def whole_seconds_def to_from_to_time_t)

lemma wf_commit_with_whole_seconds: "commit_ok c \<Longrightarrow> wf_commit (with_whole_seconds c)"
  by (simp add: commit_ok_def wf_commit_def with_whole_seconds_def wf_person_whole_seconds)

lemma Commit_content_with_whole_seconds:
  "Commit_content (with_whole_seconds c) = Commit_content c"
  by (simp add: Commit_content_def with_whole_seconds_def format_whole_seconds)

lemma Commit_roundtrip_seconds:
  "commit_ok c \<Longrightarrow> Commit_deserialize (Commit_content c) = Some (with_whole_seconds c)"
  using Commit_roundtrip [OF wf_commit_with_whole_seconds, of c]
  by (simp add: Commit_content_with_whole_seconds)

lemma with_whole_seconds_id:
  "timestamp (author c) mod ticks_per_second = 0 \<Longrightarrow>
   timestamp (committer c) mod ticks_per_second = 0 \<Longrightarrow> with_whole_seconds c = c"
  by (simp add: with_whole_seconds_def whole_seconds_id)

lemma len_example: "length (Commit_content (example_commit [hash_A, hash_B])) < 2 ^ 63"
  by (simp add: Commit_content_def example_commit_def example_person_def format_for_commit_def
      hash_A_def hash_B_def to_time_t_def ticks_per_second_def string_of_int_def string_of_nat.simps)

lemma ok_examples:
  "commit_ok (example_commit [hash_A, hash_B])" "commit_ok subsecond_commit"
  "timestamp (author (example_commit [hash_A, hash_B])) mod ticks_per_second = 0"
  "timestamp (committer (example_commit [hash_A, hash_B])) mod ticks_per_second = 0"
  "with_whole_seconds subsecond_commit
     = subsecond_commit\<lparr>author := example_person\<lparr>timestamp := 1000000000\<rparr>\<rparr>"
  by code_simp+

lemma len_subsecond: "length (Commit_content subsecond_commit) < 2 ^ 63"
  by (simp add: Commit_content_def subsecond_commit_def example_commit_def example_person_def
      format_for_commit_def to_time_t_def ticks_per_second_def string_of_int_def string_of_nat.simps)

text \<open>
  Claim C4, as the code has it. Deserializing the body of the serialized form gives
  the object back for every blob and for every tree whose entries have a mode without
  space, a name without NUL byte and a hash of 40 characters. For every commit with
  a tree hash and parent hashes of 40 characters without line feed, an author and a
  committer with a name that is not empty and has no \<^verbatim>\<open><\<close>, \<^verbatim>\<open>>\<close> or line feed, an
  email without \<^verbatim>\<open>>\<close> or line feed, a time zone that is not empty and has no white
  space and a time in the range of the 64-bit clock, and a message that does not end
  in a line feed, it gives the commit with the times of author and committer cut to
  whole seconds; that is the commit itself when both times are whole seconds. The
  sizes of the bodies are below \<open>2 ^ 63\<close>, which \<^verbatim>\<open>std::stoll\<close> needs to read the
  header. Nothing is said here about a message that ends in a line feed.
\<close>

theorem serialize_deserialize_roundtrip:
  "(length (content b) < 2 ^ 63 \<longrightarrow>
      Option.bind (object_body (Blob_serialize b)) Blob_deserialize = Some b)
   \<and> (list_all wf_entry (entries t) \<and> length (Tree_content t) < 2 ^ 63 \<longrightarrow>
      Option.bind (object_body (Tree_serialize t)) Tree_deserialize = Some t)
   \<and> (commit_ok c \<and> length (Commit_content c) < 2 ^ 63 \<longrightarrow>
      Option.bind (object_body (Commit_serialize c)) Commit_deserialize = Some (with_whole_seconds c))
   \<and> (timestamp (author c) mod ticks_per_second = 0
        \<and> timestamp (committer c) mod ticks_per_second = 0 \<longrightarrow> with_whole_seconds c = c)"
proof (intro conjI impI)
  assume "length (content b) < 2 ^ 63"
  then have "read_and_parse_object_file (''blob'' @ [SP] @ string_of_nat (length (content b)) @ [NUL] @ content b)
      = Some (''blob'', length (content b), content b)"
    by (intro read_and_parse_header) simp_all
  then show "Option.bind (object_body (Blob_serialize b)) Blob_deserialize = Some b"
    by (simp add: object_body_def Blob_serialize_def Blob_deserialize_def)
next
  assume a: "list_all wf_entry (entries t) \<and> length (Tree_content t) < 2 ^ 63"
  then have "read_and_parse_object_file (''tree'' @ [SP] @ string_of_nat (length (Tree_content t)) @ [NUL] @ Tree_content t)
      = Some (''tree'', length (Tree_content t), Tree_content t)"
    by (intro read_and_parse_header) simp_all
  with a show "Option.bind (object_body (Tree_serialize t)) Tree_deserialize = Some t"
    by (simp add: object_body_def Tree_serialize_def Tree_roundtrip)
next
  assume a: "commit_ok c \<and> length (Commit_content c) < 2 ^ 63"
  then have "read_and_parse_object_file (''commit'' @ [SP] @ string_of_nat (length (Commit_content c)) @ [NUL] @ Commit_content c)
      = Some (''commit'', length (Commit_content c), Commit_content c)"
    by (intro read_and_parse_header) simp_all
  with a show "Option.bind (object_body (Commit_serialize c)) Commit_deserialize
                 = Some (with_whole_seconds c)"
    by (simp add: object_body_def Commit_serialize_def Commit_roundtrip_seconds)
next
  assume "timestamp (author c) mod ticks_per_second = 0
        \<and> timestamp (committer c) mod ticks_per_second = 0"
  then show "with_whole_seconds c = c" by (simp add: with_whole_seconds_id)
qed

text \<open>
  The theorem at the blob \<^verbatim>\<open>hello\<close>, at a tree with a file and a directory, at a merge
  commit with two parents and times of whole seconds, and at a commit whose author
  time is one and a half seconds.
\<close>

theorem serialize_deserialize_roundtrip_witness:
  "length (content \<lparr>content = ''hello''\<rparr>) < 2 ^ 63
   \<and> (list_all wf_entry (entries example_tree) \<and> length (Tree_content example_tree) < 2 ^ 63)
   \<and> (commit_ok (example_commit [hash_A, hash_B])
        \<and> length (Commit_content (example_commit [hash_A, hash_B])) < 2 ^ 63)
   \<and> (commit_ok subsecond_commit \<and> length (Commit_content subsecond_commit) < 2 ^ 63)
   \<and> Option.bind (object_body (Blob_serialize \<lparr>content = ''hello''\<rparr>)) Blob_deserialize
        = Some \<lparr>content = ''hello''\<rparr>
   \<and> Option.bind (object_body (Tree_serialize example_tree)) Tree_deserialize = Some example_tree
   \<and> Option.bind (object_body (Commit_serialize (example_commit [hash_A, hash_B]))) Commit_deserialize
        = Some (example_commit [hash_A, hash_B])
   \<and> Option.bind (object_body (Commit_serialize subsecond_commit)) Commit_deserialize
        = Some (subsecond_commit\<lparr>author := example_person\<lparr>timestamp := 1000000000\<rparr>\<rparr>)"
proof -
  have b: "length (content \<lparr>content = ''hello''\<rparr>) < 2 ^ 63" by simp
  have t: "list_all wf_entry (entries example_tree) \<and> length (Tree_content example_tree) < 2 ^ 63"
    by (simp add: example_tree_def wf_entry_def Tree_content_def TreeEntry_serialize_def
        hash_A_def hash_B_def)
  note r1 = serialize_deserialize_roundtrip [of "\<lparr>content = ''hello''\<rparr>" example_tree
      "example_commit [hash_A, hash_B]"]
  note r2 = serialize_deserialize_roundtrip [of "\<lparr>content = ''hello''\<rparr>" example_tree
      subsecond_commit]
  from r1 ok_examples(1,3,4) len_example
  have c1: "Option.bind (object_body (Commit_serialize (example_commit [hash_A, hash_B]))) Commit_deserialize
        = Some (example_commit [hash_A, hash_B])" by simp
  from r2 ok_examples(2,5) len_subsecond
  have c2: "Option.bind (object_body (Commit_serialize subsecond_commit)) Commit_deserialize
        = Some (subsecond_commit\<lparr>author := example_person\<lparr>timestamp := 1000000000\<rparr>\<rparr>)" by simp
  from r1 b t have bt: "Option.bind (object_body (Blob_serialize \<lparr>content = ''hello''\<rparr>)) Blob_deserialize
        = Some \<lparr>content = ''hello''\<rparr>
   \<and> Option.bind (object_body (Tree_serialize example_tree)) Tree_deserialize = Some example_tree"
    by blast
  from b t bt c1 c2 ok_examples(1,2) len_example len_subsecond show ?thesis by blast
qed

text \<open>
  Claim C4 as stated fails for commits. The author line holds whole seconds, so an
  author time of 1.5 seconds comes back as 1 second; and the message lines are
  joined again without the line feed that ended the last one, so the message
  \<^verbatim>\<open>fix\n\<close> comes back as \<^verbatim>\<open>fix\<close>.
\<close>

theorem Commit_roundtrip_counterexample:
  "Commit_deserialize (Commit_content subsecond_commit)
     = Some (subsecond_commit\<lparr>author := example_person\<lparr>timestamp := 1000000000\<rparr>\<rparr>)
   \<and> Commit_deserialize (Commit_content subsecond_commit) \<noteq> Some subsecond_commit
   \<and> Commit_deserialize (Commit_content newline_commit) = Some (newline_commit\<lparr>message := ''fix''\<rparr>)
   \<and> Commit_deserialize (Commit_content newline_commit) \<noteq> Some newline_commit"
  by code_simp


section \<open>Properties of the tokens\<close>

lemma length_hex8: "length (hex8 w) = 8"
  by (simp add: hex8_def)

lemma unat_nibble: "unat ((w :: 32 word) AND 0xF) \<le> 15"
proof -
  have "w AND 0xF \<le> 0xF" by (rule word_and_le1)
  then have "unat (w AND 0xF) \<le> unat (0xF :: 32 word)" by (simp only: word_le_nat_alt)
  then show ?thesis by simp
qed

lemma hex_digit_not_LF: "d \<le> 15 \<Longrightarrow> hex_digit d \<noteq> LF"
proof
  assume d: "d \<le> 15" and e: "hex_digit d = LF"
  from e have "(of_char (hex_digit d) :: nat) = of_char LF" by simp
  with d show False by (simp add: hex_digit_def split: if_splits)
qed

lemma hex8_no_LF: "LF \<notin> set (hex8 w)"
proof
  assume "LF \<in> set (hex8 w)"
  then obtain i where "hex_digit (unat (drop_bit (28 - 4 * i) w AND 0xF)) = LF"
    by (auto simp: hex8_def)
  with hex_digit_not_LF [OF unat_nibble] show False by blast
qed

lemma length_sha1: "length (sha1 data) = 40"
  by (simp add: sha1_def length_hex8 split: prod.split)

lemma sha1_no_LF: "LF \<notin> set (sha1 data)"
  by (simp add: sha1_def hex8_no_LF split: prod.split)

lemma getline_delim:
  "delim \<notin> set xs \<Longrightarrow> getline delim (xs @ delim # rest) = Some (xs, rest)"
proof -
  assume a: "delim \<notin> set xs"
  then have b: "\<forall>x \<in> set xs. x \<noteq> delim" by auto
  have "takeWhile (\<lambda>c. c \<noteq> delim) (xs @ delim # rest) = xs"
    by (rule takeWhile_append_stop [OF b]) simp
  moreover have "dropWhile (\<lambda>c. c \<noteq> delim) (xs @ delim # rest) = delim # rest"
    by (rule dropWhile_append_stop [OF b]) simp
  ultimately show ?thesis by (simp add: getline_def)
qed

lemma getline_last:
  "xs \<noteq> [] \<Longrightarrow> delim \<notin> set xs \<Longrightarrow> getline delim xs = Some (xs, [])"
proof -
  assume n: "xs \<noteq> []" and a: "delim \<notin> set xs"
  then have b: "\<forall>x \<in> set xs. x \<noteq> delim" by auto
  have t: "takeWhile (\<lambda>c. c \<noteq> delim) xs = xs" using b by simp
  have d: "dropWhile (\<lambda>c. c \<noteq> delim) xs = []" using b by simp
  show ?thesis unfolding getline_def t d using n by simp
qed

lemma string_of_int_no_colon: "CHR '':'' \<notin> set (string_of_int i)"
proof
  assume "CHR '':'' \<in> set (string_of_int i)"
  then have "CHR '':'' = CHR ''-'' \<or> isdigit (CHR '':'')" by (rule string_of_int_no)
  then show False by (simp add: isdigit_def less_eq_char_def)
qed

lemma stoll_string_of_int:
  "- (2 ^ 63) \<le> i \<Longrightarrow> i < 2 ^ 63 \<Longrightarrow> stoll (string_of_int i) = Some i"
  using extract_long_long_string_of_int [of i "[]"] by (simp add: stoll_def)

lemma validate_generated:
  assumes "m_initialized tm" "username \<noteq> []" "CHR '':'' \<notin> set username"
    "- (2 ^ 63) \<le> expiry" "expiry < 2 ^ 63"
  shows "validateToken tm now
           (username @ '':'' @ string_of_int expiry @ '':''
              @ sha1 (username @ '':'' @ string_of_int expiry @ m_serverSecret tm)) out_username
         = (if to_time_t now > expiry then (False, []) else (True, username))"
proof -
  let ?e = "string_of_int expiry"
  let ?sig = "sha1 (username @ '':'' @ ?e @ m_serverSecret tm)"
  have g1: "getline (CHR '':'') (username @ CHR '':'' # (?e @ CHR '':'' # ?sig))
              = Some (username, ?e @ CHR '':'' # ?sig)"
    by (rule getline_delim [OF assms(3)])
  have g2: "getline (CHR '':'') (?e @ CHR '':'' # ?sig) = Some (?e, ?sig)"
    by (rule getline_delim [OF string_of_int_no_colon])
  have ne: "?sig \<noteq> []" using length_sha1 [of "username @ '':'' @ ?e @ m_serverSecret tm"] by auto
  have g3: "getline LF ?sig = Some (?sig, [])"
    by (rule getline_last [OF ne sha1_no_LF])
  have st: "stoll ?e = Some expiry" by (rule stoll_string_of_int [OF assms(4,5)])
  show ?thesis
    using assms(1) g1 g2 g3 st
    by (simp add: validateToken_def verifySignature_def createSignature_def)
qed

text \<open>
  Claim C9. On an initialized manager, for a non-empty username without colon and a
  clock whose reading plus one hour stays in the 64-bit range, the token made by
  \<^verbatim>\<open>generateToken\<close> with a duration of 3600 seconds is the username, a colon, the
  expiry in seconds since the epoch, a colon and the SHA-1 of username, colon, expiry
  and server secret. Validating it when the clock, in whole seconds, has not passed the
  expiry succeeds with that username; validating it when the clock has passed the
  expiry fails and leaves the username empty.
\<close>

theorem token_roundtrip:
  assumes "m_initialized tm" "username \<noteq> []" "CHR '':'' \<notin> set username"
    "- (2 ^ 63) \<le> now + 3600 * ticks_per_second" "now + 3600 * ticks_per_second < 2 ^ 63"
  shows "(let expiry = to_time_t (now + 3600 * ticks_per_second);
              token = generateToken tm now username 3600
          in token = username @ '':'' @ string_of_int expiry @ '':''
                       @ sha1 (username @ '':'' @ string_of_int expiry @ m_serverSecret tm)
           \<and> (\<forall>later out. to_time_t later \<le> expiry
                 \<longrightarrow> validateToken tm later token out = (True, username))
           \<and> (\<forall>later out. expiry < to_time_t later
                 \<longrightarrow> validateToken tm later token out = (False, [])))"
proof -
  let ?expiry = "to_time_t (now + 3600 * ticks_per_second)"
  have r: "- (2 ^ 63) \<le> ?expiry \<and> ?expiry < 2 ^ 63"
    by (rule to_time_t_range [OF assms(4,5)])
  have tok: "generateToken tm now username 3600
               = username @ '':'' @ string_of_int ?expiry @ '':''
                   @ sha1 (username @ '':'' @ string_of_int ?expiry @ m_serverSecret tm)"
    using assms(1,2,3) by (simp add: generateToken_def createSignature_def Let_def)
  have v: "validateToken tm later (generateToken tm now username 3600) out
             = (if to_time_t later > ?expiry then (False, []) else (True, username))" for later out
    unfolding tok using r by (intro validate_generated assms(1,2,3)) simp_all
  show ?thesis
    unfolding Let_def
  proof (intro conjI allI impI)
    show "generateToken tm now username 3600
               = username @ '':'' @ string_of_int ?expiry @ '':''
                   @ sha1 (username @ '':'' @ string_of_int ?expiry @ m_serverSecret tm)"
      by (rule tok)
  next
    fix later out
    assume "to_time_t later \<le> ?expiry"
    then show "validateToken tm later (generateToken tm now username 3600) out = (True, username)"
      by (simp add: v)
  next
    fix later out
    assume "?expiry < to_time_t later"
    then show "validateToken tm later (generateToken tm now username 3600) out = (False, [])"
      by (simp add: v)
  qed
qed

text \<open>
  The theorem for the user \<^verbatim>\<open>alice\<close> at 5.12 seconds after the epoch: the token
  expires at second 3605; it is valid at 3605.99 seconds and refused at 3606.
\<close>

theorem token_roundtrip_witness:
  "m_initialized example_manager \<and> ''alice'' \<noteq> [] \<and> CHR '':'' \<notin> set ''alice''
   \<and> generateToken example_manager 5123456789 ''alice'' 3600
        = ''alice:3605:'' @ sha1 ''alice:3605s3cret''
   \<and> validateToken example_manager 3605999999999
        (generateToken example_manager 5123456789 ''alice'' 3600) ''x'' = (True, ''alice'')
   \<and> validateToken example_manager 3606000000000
        (generateToken example_manager 5123456789 ''alice'' 3600) ''x'' = (False, [])"
proof -
  have e: "to_time_t (5123456789 + 3600 * ticks_per_second) = 3605"
    "to_time_t 3605999999999 = 3605" "to_time_t 3606000000000 = 3606"
    by (simp_all add: to_time_t_def ticks_per_second_def)
  have s: "string_of_int 3605 = ''3605''"
    by code_simp
  have m: "m_initialized example_manager" "m_serverSecret example_manager = ''s3cret''"
    by (simp_all add: example_manager_def initialize_def)
  have r: "- (2 ^ 63) \<le> 5123456789 + 3600 * ticks_per_second"
    "5123456789 + 3600 * ticks_per_second < 2 ^ 63"
    by (simp_all add: ticks_per_second_def)
  have u: "''alice'' \<noteq> []" "CHR '':'' \<notin> set ''alice''" by simp_all
  note t = token_roundtrip [of example_manager "''alice''" 5123456789, OF m(1) u r,
      unfolded Let_def e(1) s m(2)]
  from t have tok: "generateToken example_manager 5123456789 ''alice'' 3600
               = ''alice:3605:'' @ sha1 ''alice:3605s3cret''"
    by simp
  from t have ok: "to_time_t later \<le> 3605 \<Longrightarrow> validateToken example_manager later
              (generateToken example_manager 5123456789 ''alice'' 3600) out = (True, ''alice'')"
    for later out by blast
  from t have bad: "3605 < to_time_t later \<Longrightarrow> validateToken example_manager later
              (generateToken example_manager 5123456789 ''alice'' 3600) out = (False, [])"
    for later out by blast
  have "validateToken example_manager 3605999999999
          (generateToken example_manager 5123456789 ''alice'' 3600) ''x'' = (True, ''alice'')"
    by (rule ok) (simp add: e(2))
  moreover have "validateToken example_manager 3606000000000
          (generateToken example_manager 5123456789 ''alice'' 3600) ''x'' = (False, [])"
    by (rule bad) (simp add: e(3))
  ultimately show ?thesis using tok m(1) u by blast
qed

section \<open>Properties of updating a reference\<close>

lemma read_ref_value_absent: "\<not> fs_exists fs p \<Longrightarrow> read_ref_value fs p = None"
  by (simp add: read_ref_value_def)

lemma read_ref_value_Some:
  "read_ref_value fs p = Some v \<Longrightarrow> fs_exists fs p \<and> fs_is_regular_file fs p \<and> length v = 40"
  by (auto simp: read_ref_value_def read_file_def fs_is_regular_file_def
      split: if_splits option.splits fs_node.splits)

text \<open>
  Claim C1, as the code has it. For a call of \<^verbatim>\<open>update_ref\<close> with a valid name, a new
  hash of 40 hexadecimal digits that loads as a commit, and an expected old hash: when
  nothing is at the path of the reference, or a file whose first word is not 40
  characters long, the result is \<^verbatim>\<open>REF_NOT_FOUND_FOR_UPDATE\<close>; when the file holds a
  value of 40 characters other than the expected one, the result is
  \<^verbatim>\<open>OLD_HASH_MISMATCH\<close>; when a directory is at the path, the result is \<^verbatim>\<open>IO_ERROR\<close>.
  In each case the file system is left as it was.
\<close>

theorem update_ref_expected_old:
  assumes "starts_with ''refs/heads/'' ref_full_name \<or> starts_with ''refs/tags/'' ref_full_name"
    and "last ref_full_name \<noteq> CHR ''/''"
    and "\<not> contains_sub ''..'' ref_full_name"
    and "\<not> contains_sub ''//'' ref_full_name"
    and "length new_commit_hash = 40"
    and "list_all isxdigit new_commit_hash"
    and "Commit_load_by_hash objs new_commit_hash \<noteq> None"
  shows "(\<not> fs_exists fs (slash git_dir ref_full_name) \<longrightarrow>
            update_ref git_dir objs fs ref_full_name new_commit_hash (Some old) allow
              = (REF_NOT_FOUND_FOR_UPDATE, fs))
       \<and> (fs_is_regular_file fs (slash git_dir ref_full_name)
            \<and> read_ref_value fs (slash git_dir ref_full_name) = None \<longrightarrow>
            update_ref git_dir objs fs ref_full_name new_commit_hash (Some old) allow
              = (REF_NOT_FOUND_FOR_UPDATE, fs))
       \<and> (\<forall>v. read_ref_value fs (slash git_dir ref_full_name) = Some v \<and> v \<noteq> old \<longrightarrow>
            update_ref git_dir objs fs ref_full_name new_commit_hash (Some old) allow
              = (OLD_HASH_MISMATCH, fs))
       \<and> (fs_is_directory fs (slash git_dir ref_full_name) \<longrightarrow>
            update_ref git_dir objs fs ref_full_name new_commit_hash (Some old) allow
              = (IO_ERROR, fs))"
proof (intro conjI impI allI)
  assume "\<not> fs_exists fs (slash git_dir ref_full_name)"
  with assms read_ref_value_absent [of fs "slash git_dir ref_full_name"]
  show "update_ref git_dir objs fs ref_full_name new_commit_hash (Some old) allow
          = (REF_NOT_FOUND_FOR_UPDATE, fs)"
    by (simp add: update_ref_def)
next
  assume "fs_is_regular_file fs (slash git_dir ref_full_name)
            \<and> read_ref_value fs (slash git_dir ref_full_name) = None"
  with assms
  show "update_ref git_dir objs fs ref_full_name new_commit_hash (Some old) allow
          = (REF_NOT_FOUND_FOR_UPDATE, fs)"
    by (simp add: update_ref_def)
next
  fix v
  assume a: "read_ref_value fs (slash git_dir ref_full_name) = Some v \<and> v \<noteq> old"
  with read_ref_value_Some [of fs "slash git_dir ref_full_name" v]
  have "fs_is_regular_file fs (slash git_dir ref_full_name)" by simp
  with assms a
  show "update_ref git_dir objs fs ref_full_name new_commit_hash (Some old) allow
          = (OLD_HASH_MISMATCH, fs)"
    by (simp add: update_ref_def)
next
  assume "fs_is_directory fs (slash git_dir ref_full_name)"
  then have "fs_exists fs (slash git_dir ref_full_name)"
    "\<not> fs_is_regular_file fs (slash git_dir ref_full_name)"
    by (simp_all add: fs_is_directory_def fs_exists_def fs_is_regular_file_def)
  with assms
  show "update_ref git_dir objs fs ref_full_name new_commit_hash (Some old) allow
          = (IO_ERROR, fs)"
    by (simp add: update_ref_def)
qed

text \<open>
  The theorem in the example repository: the branch \<^verbatim>\<open>new\<close> does not exist, and the
  branch \<^verbatim>\<open>main\<close> holds another hash than the expected one.
\<close>

lemma example_new_commit:
  "length hash_A = 40" "list_all isxdigit hash_A" "Commit_load_by_hash fork_store hash_A \<noteq> None"
  by code_simp+

theorem update_ref_expected_old_witness:
  "update_ref example_mygit_dir fork_store example_fs ''refs/heads/new'' hash_A (Some hash_B) False
     = (REF_NOT_FOUND_FOR_UPDATE, example_fs)
   \<and> update_ref example_mygit_dir fork_store example_fs ''refs/heads/main'' hash_A (Some hash_B) False
     = (OLD_HASH_MISMATCH, example_fs)"
proof -
  have n: "starts_with ''refs/heads/'' ''refs/heads/new'' \<or> starts_with ''refs/tags/'' ''refs/heads/new''"
    "last ''refs/heads/new'' \<noteq> CHR ''/''" "\<not> contains_sub ''..'' ''refs/heads/new''"
    "\<not> contains_sub ''//'' ''refs/heads/new''"
    by code_simp+
  have m: "starts_with ''refs/heads/'' ''refs/heads/main'' \<or> starts_with ''refs/tags/'' ''refs/heads/main''"
    "last ''refs/heads/main'' \<noteq> CHR ''/''" "\<not> contains_sub ''..'' ''refs/heads/main''"
    "\<not> contains_sub ''//'' ''refs/heads/main''"
    by code_simp+
  have a: "\<not> fs_exists example_fs (slash example_mygit_dir ''refs/heads/new'')"
    by code_simp
  have b: "read_ref_value example_fs (slash example_mygit_dir ''refs/heads/main'') = Some hash_R"
    by code_simp
  have c: "hash_R \<noteq> hash_B" by code_simp
  from update_ref_expected_old [OF n example_new_commit, of example_fs example_mygit_dir hash_B False] a
  have "update_ref example_mygit_dir fork_store example_fs ''refs/heads/new'' hash_A (Some hash_B) False
     = (REF_NOT_FOUND_FOR_UPDATE, example_fs)" by blast
  moreover
  from update_ref_expected_old [OF m example_new_commit, of example_fs example_mygit_dir hash_B False] b c
  have "update_ref example_mygit_dir fork_store example_fs ''refs/heads/main'' hash_A (Some hash_B) False
     = (OLD_HASH_MISMATCH, example_fs)" by blast
  ultimately show ?thesis by blast
qed

text \<open>
  Claim C1 as stated fails. The reference file \<^verbatim>\<open>refs/heads/broken\<close> exists and its
  content differs from the expected hash, yet the result is
  \<^verbatim>\<open>REF_NOT_FOUND_FOR_UPDATE\<close>: a file without a hash counts as missing. And for the
  name \<^verbatim>\<open>main\<close>, where no reference file exists, the result is \<^verbatim>\<open>INVALID_REF_NAME\<close>:
  the name is checked first.
\<close>

theorem update_ref_expected_old_counterexample:
  "fs_exists example_fs (slash example_mygit_dir ''refs/heads/broken'')
   \<and> read_file example_fs (slash example_mygit_dir ''refs/heads/broken'') = Some ''not a hash''
   \<and> ''not a hash'' \<noteq> hash_B
   \<and> fst (update_ref example_mygit_dir fork_store example_fs ''refs/heads/broken'' hash_A
            (Some hash_B) False) = REF_NOT_FOUND_FOR_UPDATE
   \<and> fst (update_ref example_mygit_dir fork_store example_fs ''refs/heads/broken'' hash_A
            (Some hash_B) False) \<noteq> OLD_HASH_MISMATCH
   \<and> \<not> fs_exists example_fs (slash example_mygit_dir ''main'')
   \<and> fst (update_ref example_mygit_dir fork_store example_fs ''main'' hash_A (Some hash_B) False)
        = INVALID_REF_NAME
   \<and> fst (update_ref example_mygit_dir fork_store example_fs ''main'' hash_A (Some hash_B) False)
        \<noteq> REF_NOT_FOUND_FOR_UPDATE"
  by code_simp

section \<open>Properties of removing a file\<close>

text \<open>
  Claim C10 at a concrete repository. The index holds \<^verbatim>\<open>sub/f.txt\<close> and the file is
  absent from the work tree. Called in the directory \<^verbatim>\<open>/repo/sub\<close> with the argument
  \<^verbatim>\<open>f.txt\<close>, \<^verbatim>\<open>rm\<close> returns \<^verbatim>\<open>true\<close> and the entry is still in the index, in memory
  and in the file: \<^verbatim>\<open>rm_cached\<close> has looked for \<^verbatim>\<open>sub/sub/f.txt\<close>. Called in the
  directory \<^verbatim>\<open>/repo\<close> with the argument \<^verbatim>\<open>sub/f.txt\<close>, \<^verbatim>\<open>rm\<close> returns \<^verbatim>\<open>true\<close> and the
  entry is gone.
\<close>

theorem rm_from_subdirectory_keeps_entry:
  "Index_load (rm_fs (index_file rm_repo)) (index_manager rm_repo)
     = (True, \<lparr>index_entries = [rm_entry], index_loaded = True\<rparr>)
   \<and> \<not> fs_exists rm_fs [''/'', ''repo'', ''sub'', ''f.txt'']
   \<and> fst (rm [''/'', ''repo'', ''sub''] (path_of_string ''f.txt'') (rm_repo, rm_fs)) = True
   \<and> index_manager (fst (snd (rm [''/'', ''repo'', ''sub''] (path_of_string ''f.txt'') (rm_repo, rm_fs))))
       = \<lparr>index_entries = [rm_entry], index_loaded = True\<rparr>
   \<and> snd (snd (rm [''/'', ''repo'', ''sub''] (path_of_string ''f.txt'') (rm_repo, rm_fs)))
         (index_file rm_repo) = Some (File (rm_index_line @ [LF]))
   \<and> fst (rm [''/'', ''repo''] (path_of_string ''sub/f.txt'') (rm_repo, rm_fs)) = True
   \<and> index_manager (fst (snd (rm [''/'', ''repo''] (path_of_string ''sub/f.txt'') (rm_repo, rm_fs))))
       = \<lparr>index_entries = [], index_loaded = True\<rparr>
   \<and> snd (snd (rm [''/'', ''repo''] (path_of_string ''sub/f.txt'') (rm_repo, rm_fs)))
         (index_file rm_repo) = Some (File [])"
  by code_simp

section \<open>Properties of committing\<close>

lemma Commit_save_writable: "\<exists>h objs'. Commit_save True objs c = Some (h, objs')"
  using length_sha1 [of "Commit_serialize c"]
  by (auto simp: Commit_save_def Let_def split: option.split)

lemma Commit_save_store:
  "Commit_save w objs c = Some (h, objs') \<Longrightarrow> w \<or> objs' = objs"
  by (auto simp: Commit_save_def Let_def split: if_splits option.splits)

lemma get_head_commit_hash_index [simp]:
  "get_head_commit_hash (repo\<lparr>index_manager := idx\<rparr>) fs = get_head_commit_hash repo fs"
  by (simp add: get_head_commit_hash_def Let_def split: option.split)

lemma merge_parents_iff:
  "merge_parents fs mh (Some h) ps = None \<longleftrightarrow> read_hash_word fs mh = None"
  by (simp add: merge_parents_def Let_def split: option.split)

text \<open>
  Claim C6, as the code has it. \<^verbatim>\<open>HEAD\<close> resolves to a commit that loads, the index is
  available, the trees are built and the object directory can be written. Then
  \<^verbatim>\<open>commit\<close> returns nothing exactly when \<^verbatim>\<open>MERGE_HEAD\<close> is absent and the root tree
  built from the index is the tree of the commit at \<^verbatim>\<open>HEAD\<close>, or \<^verbatim>\<open>MERGE_HEAD\<close> is
  present and its first word is not a hash of 40 characters. When it returns
  nothing, the file system and the commits of the object directory are as before.
  So a commit that completes a merge is accepted with an identical tree.
\<close>

theorem commit_rejected_iff:
  assumes "get_head_commit_hash repo fs = Some h"
    and "Commit_load_by_hash objs h = Some head_commit"
    and "load_if_needed fs (index_file repo) (index_manager repo) = (True, idx)"
    and "build_trees_and_get_root_hash env (Index_sort_entries (index_entries idx))
           = Some root_tree_hash"
    and "objects_writable env"
  shows "(fst (commit env msg (repo, fs, objs)) = None \<longleftrightarrow>
            (if fs_exists fs (path_join (mygit_dir repo) [''MERGE_HEAD''])
             then read_hash_word fs (path_join (mygit_dir repo) [''MERGE_HEAD'']) = None
             else root_tree_hash = tree_hash_hex head_commit))
       \<and> (fst (commit env msg (repo, fs, objs)) = None \<longrightarrow>
            snd (snd (commit env msg (repo, fs, objs))) = (fs, objs))"
proof -
  obtain ps br where hp: "head_parents (repo\<lparr>index_manager := idx\<rparr>) fs (Some h) = (ps, br)"
    by (cases "head_parents (repo\<lparr>index_manager := idx\<rparr>) fs (Some h)")
  let ?mh = "path_join (mygit_dir repo) [''MERGE_HEAD'']"
  show ?thesis
  proof (cases "fs_exists fs ?mh")
    case True
    show ?thesis
    proof (cases "read_hash_word fs ?mh")
      case None
      then have mp: "merge_parents fs ?mh (Some h) ps = None"
        by (simp add: merge_parents_iff)
      from None True assms hp mp show ?thesis
        by (simp add: commit_def Let_def)
    next
      case (Some theirs)
      then obtain parents where mp: "merge_parents fs ?mh (Some h) ps = Some parents"
        using merge_parents_iff [of fs ?mh h ps] by auto
      obtain nh objs' where sv:
        "Commit_save True objs \<lparr>tree_hash_hex = root_tree_hash, parent_hashes_hex = parents,
            author = commit_person env, committer = commit_person env, message = msg\<rparr>
           = Some (nh, objs')"
        using Commit_save_writable by blast
      from True Some assms hp mp sv show ?thesis
        by (simp add: commit_def Let_def split: prod.split)
    qed
  next
    case False
    show ?thesis
    proof (cases "root_tree_hash = tree_hash_hex head_commit")
      case True
      with False assms show ?thesis
        by (simp add: commit_def Let_def)
    next
      case ne: False
      obtain nh objs' where sv:
        "Commit_save True objs \<lparr>tree_hash_hex = root_tree_hash, parent_hashes_hex = ps,
            author = commit_person env, committer = commit_person env, message = msg\<rparr>
           = Some (nh, objs')"
        using Commit_save_writable by blast
      from False ne assms hp sv show ?thesis
        by (simp add: commit_def Let_def split: prod.split)
    qed
  qed
qed

text \<open>
  The theorem in the example repository: a tree that differs is committed, the same
  tree is rejected and leaves everything as it was, and the same tree is committed
  when \<^verbatim>\<open>MERGE_HEAD\<close> holds a hash.
\<close>

lemma commit_example_facts:
  "get_head_commit_hash rm_repo commit_fs = Some hash_R"
  "get_head_commit_hash rm_repo commit_fs_merge_ok = Some hash_R"
  "Commit_load_by_hash fork_store hash_R = Some (example_commit [])"
  "load_if_needed commit_fs (index_file rm_repo) (index_manager rm_repo)
     = (True, \<lparr>index_entries = [], index_loaded = True\<rparr>)"
  "load_if_needed commit_fs_merge_ok (index_file rm_repo) (index_manager rm_repo)
     = (True, \<lparr>index_entries = [], index_loaded = True\<rparr>)"
  "build_trees_and_get_root_hash commit_env_example (Index_sort_entries [])
     = Some ''dddddddddddddddddddddddddddddddddddddddd''"
  "build_trees_and_get_root_hash commit_env_same (Index_sort_entries [])
     = Some ''eeeeeeeeeeeeeeeeeeeeeeeeeeeeeeeeeeeeeeee''"
  "objects_writable commit_env_example" "objects_writable commit_env_same"
  "\<not> fs_exists commit_fs (path_join (mygit_dir rm_repo) [''MERGE_HEAD''])"
  "fs_exists commit_fs_merge_ok (path_join (mygit_dir rm_repo) [''MERGE_HEAD''])"
  "read_hash_word commit_fs_merge_ok (path_join (mygit_dir rm_repo) [''MERGE_HEAD'']) = Some hash_A"
  "tree_hash_hex (example_commit []) = ''eeeeeeeeeeeeeeeeeeeeeeeeeeeeeeeeeeeeeeee''"
  by code_simp+

theorem commit_rejected_iff_witness:
  "get_head_commit_hash rm_repo commit_fs = Some hash_R
   \<and> Commit_load_by_hash fork_store hash_R = Some (example_commit [])
   \<and> fst (commit commit_env_example ''msg'' (rm_repo, commit_fs, fork_store)) \<noteq> None
   \<and> fst (commit commit_env_same ''msg'' (rm_repo, commit_fs, fork_store)) = None
   \<and> snd (snd (commit commit_env_same ''msg'' (rm_repo, commit_fs, fork_store)))
        = (commit_fs, fork_store)
   \<and> fst (commit commit_env_same ''msg'' (rm_repo, commit_fs_merge_ok, fork_store)) \<noteq> None"
proof -
  note f = commit_example_facts
  have a: "fst (commit commit_env_example ''msg'' (rm_repo, commit_fs, fork_store)) \<noteq> None"
    using commit_rejected_iff [OF f(1) f(3) f(4), of commit_env_example, simplified, OF f(6) f(8),
        of "''msg''"] f(10) f(13)
    by simp
  have b: "fst (commit commit_env_same ''msg'' (rm_repo, commit_fs, fork_store)) = None
      \<and> snd (snd (commit commit_env_same ''msg'' (rm_repo, commit_fs, fork_store)))
        = (commit_fs, fork_store)"
    using commit_rejected_iff [OF f(1) f(3) f(4), of commit_env_same, simplified, OF f(7) f(9),
        of "''msg''"] f(10) f(13)
    by simp
  have c: "fst (commit commit_env_same ''msg'' (rm_repo, commit_fs_merge_ok, fork_store)) \<noteq> None"
    using commit_rejected_iff [OF f(2) f(3) f(5), of commit_env_same, simplified, OF f(7) f(9),
        of "''msg''"] f(11) f(12)
    by simp
  from a b c f(1) f(3) show ?thesis by blast
qed

text \<open>
  Claim C6 as stated fails: here \<^verbatim>\<open>HEAD\<close> resolves to a commit that loads and
  \<^verbatim>\<open>MERGE_HEAD\<close> is present, yet the commit is rejected, because \<^verbatim>\<open>MERGE_HEAD\<close> holds
  no hash.
\<close>

theorem commit_rejected_counterexample:
  "get_head_commit_hash rm_repo commit_fs_merging = Some hash_R
   \<and> Commit_load_by_hash fork_store hash_R = Some (example_commit [])
   \<and> fs_exists commit_fs_merging (path_join (mygit_dir rm_repo) [''MERGE_HEAD''])
   \<and> fst (commit commit_env_example ''msg'' (rm_repo, commit_fs_merging, fork_store)) = None"
  by code_simp

section \<open>Properties of merging\<close>




















end
